theory Spec2Isabelle
  imports Main "HOL-Library.Word"
begin

unbundle bit_operations_syntax

section \<open>The bucketed LRU cache of Engine/Cache.cpp\<close>

text \<open>
  The cache is split into 256 buckets. Each bucket owns a table-of-contents segment in
  which entry headers are allocated, a map from hash to entry header, an intrusive
  doubly-linked LRU list threaded through the headers, a byte counter and a set of free
  tile indices. The model is sequential: every operation runs under the locks the source
  takes for it, and a timed lock is always obtained.
\<close>

subsection \<open>Constants\<close>

type_synonym U64 = "64 word"

definition NATRON_CACHE_BUCKETS_N_DIGITS :: nat where
  "NATRON_CACHE_BUCKETS_N_DIGITS = 2"

definition NATRON_CACHE_BUCKETS_COUNT :: nat where
  "NATRON_CACHE_BUCKETS_COUNT = 256"

definition NATRON_NUM_TILES_PER_BUCKET_FILE :: nat where
  "NATRON_NUM_TILES_PER_BUCKET_FILE = 256"

subsection \<open>Bucket index of a hash\<close>

text \<open>
  \<open>getBucketStorageIndex<level>\<close>: the mask is the all-ones word shifted right by
  \<open>NATRON_CACHE_BUCKETS_N_DIGITS * level * 4\<close> bits, the index is the masked hash shifted
  right by \<open>64 - NATRON_CACHE_BUCKETS_N_DIGITS * (level + 1) * 4\<close> bits. The result is
  below 256, so the conversion to \<open>int\<close> of the source keeps the value.
\<close>

definition getBucketStorageIndex :: "nat \<Rightarrow> U64 \<Rightarrow> nat" where
  "getBucketStorageIndex level hash =
     (let mask = drop_bit (NATRON_CACHE_BUCKETS_N_DIGITS * level * 4) (0xffffffffffffffff :: U64);
          index = hash AND mask;
          index = drop_bit (64 - NATRON_CACHE_BUCKETS_N_DIGITS * (level + 1) * 4) index
      in unat index)"

definition getBucketCacheBucketIndex :: "U64 \<Rightarrow> nat" where
  "getBucketCacheBucketIndex hash = getBucketStorageIndex 7 hash"

subsection \<open>Data model\<close>

text \<open>
  An \<open>addr\<close> is the offset of an entry header inside the table-of-contents segment of
  its bucket. The LRU node is a member of the header, so a pointer to the node and a
  pointer to the header are the same offset. A null \<open>offset_ptr\<close> is \<open>None\<close>.
\<close>

type_synonym addr = nat

record LRUListNode =
  prev :: "addr option"
  "next" :: "addr option"
  hash :: U64

datatype EntryStatusEnum = eEntryStatusReady | eEntryStatusNull | eEntryStatusPending

text \<open>
  Modelled from the spec: the class \<open>IPCPropertyMap\<close> is declared in a header that is
  not part of the sources. The cache only writes and reads back the 64-bit property
  \<open>kNatronIPCPropertyHash\<close>, so the map is a partial function from property names to
  64-bit values.
\<close>

type_synonym IPCPropertyMap = "string \<rightharpoonup> U64"

definition kNatronIPCPropertyHash :: string where
  "kNatronIPCPropertyHash = ''NatronIPCPropertyHash''"

datatype FromMemorySegmentRetCodeEnum =
    eFromMemorySegmentRetCodeOk
  | eFromMemorySegmentRetCodeFailed
  | eFromMemorySegmentRetCodeNeedWriteLock

text \<open>What a call of \<open>fromMemorySegment\<close> does: it returns a code or throws.\<close>

datatype FromMemorySegmentOutcome =
    Returns FromMemorySegmentRetCodeEnum
  | ThrowsBadAlloc
  | ThrowsException

text \<open>
  Modelled from the spec: the class \<open>CacheEntryBase\<close> of the process-local entry is
  declared in a header that is not part of the sources. It is the capability set of the
  payload serialization contract: the hash key, \<open>metadata_size\<close>, the holder id,
  \<open>allow_multiple_fetch_per_thread\<close>, \<open>serialize\<close> (\<open>None\<close> when the segment
  allocator throws \<open>bad_alloc\<close>), \<open>deserialize\<close> and the hash recomputed from the
  deserialized payload. Serialization and deserialization allocate in the segment, so
  their outcome may depend on its size in bytes, which is their first argument.
\<close>

record CacheEntryBase =
  getHashKey :: U64
  getMetadataSize :: U64
  getHolderPluginID :: string
  allowMultipleFetchForThread :: bool
  toMemorySegment :: "nat \<Rightarrow> IPCPropertyMap \<Rightarrow> IPCPropertyMap option"
  fromMemorySegment :: "nat \<Rightarrow> bool \<Rightarrow> IPCPropertyMap \<Rightarrow> FromMemorySegmentOutcome"
  getHashKeyForced :: "IPCPropertyMap \<Rightarrow> U64"

text \<open>
  \<open>MemorySegmentEntryHeaderBase\<close> with the members of both specialisations:
  \<open>properties\<close> is used by the persistent cache, \<open>nonPersistentEntry\<close> by the
  non-persistent one.
\<close>

record MemorySegmentEntryHeader =
  size_entry :: U64
  status :: EntryStatusEnum
  computeThreadMagic :: U64
  lruNode :: LRUListNode
  tileIndices :: "U64 list"
  pluginID :: string
  properties :: IPCPropertyMap
  nonPersistentEntry :: "CacheEntryBase option"

datatype BucketStateEnum = eBucketStateOk | eBucketStateInconsistent

type_synonym ToCSegment = "addr \<rightharpoonup> MemorySegmentEntryHeader"

text \<open>
  One bucket: the members of \<open>CacheBucketIPCData\<close>, the entry headers allocated in the
  table-of-contents file (\<open>segment\<close>) and the size of that file. \<open>entriesMap\<close> is an
  association list from hash to header offset, \<open>freeTiles\<close> a sorted list without
  duplicates, as the ordered set of the source iterates.
\<close>

record CacheBucket =
  lruListFront :: "addr option"
  lruListBack :: "addr option"
  bucketState :: BucketStateEnum
  size_bucket :: U64
  entriesMap :: "(U64 \<times> addr) list"
  freeTiles :: "U64 list"
  segment :: ToCSegment
  tocFileSize :: nat

text \<open>
  \<open>CachePrivate\<close>: \<open>buckets\<close> is indexed by 0..255, \<open>tilesStorage\<close> is the number of
  tile storage files (their bytes are not modelled), \<open>persistent\<close> is the template
  argument.
\<close>

record Cache =
  maximumSize :: U64
  buckets :: "nat \<Rightarrow> CacheBucket"
  tilesStorage :: nat
  useTileStorage :: bool
  persistent :: bool

datatype CacheEntryStatusEnum =
    eCacheEntryStatusCached
  | eCacheEntryStatusMustCompute
  | eCacheEntryStatusComputationPending

record CacheEntryLocker =
  processLocalEntry :: CacheEntryBase
  hash_locker :: U64
  bucket :: "nat option"
  status_locker :: CacheEntryStatusEnum

text \<open>
  Failures: \<open>CorruptedCacheException\<close> is the exception of the source. A read or write
  through an offset that names no live header is undefined behaviour in the source; the
  model stops there with \<open>InvalidPointer\<close>.
\<close>

datatype error = CorruptedCacheException | InvalidPointer

text \<open>
  Modelled from the spec: the macro \<open>NATRON_TILE_SIZE_BYTES\<close> is defined in a header that
  is not part of the sources. A storage file is 1 GiB and holds 256 * 256 tiles, which
  gives 16384 bytes per tile. No theorem below depends on the value.
\<close>

definition NATRON_TILE_SIZE_BYTES :: U64 where
  "NATRON_TILE_SIZE_BYTES = 16384"

definition NATRON_CACHE_BUCKET_TOC_FILE_GROW_N_BYTES :: nat where
  "NATRON_CACHE_BUCKET_TOC_FILE_GROW_N_BYTES = 524288"

definition upd_bucket :: "nat \<Rightarrow> (CacheBucket \<Rightarrow> CacheBucket) \<Rightarrow> Cache \<Rightarrow> Cache" where
  "upd_bucket i f c = c\<lparr>buckets := (buckets c)(i := f (buckets c i))\<rparr>"

subsection \<open>The intrusive LRU list\<close>

definition set_prev :: "addr \<Rightarrow> addr option \<Rightarrow> ToCSegment \<Rightarrow> ToCSegment option" where
  "set_prev a p seg =
     (case seg a of None \<Rightarrow> None
      | Some e \<Rightarrow> Some (seg(a \<mapsto> e\<lparr>lruNode := (lruNode e)\<lparr>prev := p\<rparr>\<rparr>)))"

definition set_next :: "addr \<Rightarrow> addr option \<Rightarrow> ToCSegment \<Rightarrow> ToCSegment option" where
  "set_next a n seg =
     (case seg a of None \<Rightarrow> None
      | Some e \<Rightarrow> Some (seg(a \<mapsto> e\<lparr>lruNode := (lruNode e)\<lparr>next := n\<rparr>\<rparr>)))"

text \<open>
  \<open>disconnectLinkedListNode\<close>, statement by statement: the successor of the previous
  node is set to the successor of the node; \<open>node->prev\<close> is cleared; the predecessor of
  the next node is set to \<open>node->prev\<close>, read after it was cleared; \<open>node->next\<close> is
  cleared.
\<close>

definition disconnectLinkedListNode :: "addr \<Rightarrow> ToCSegment \<Rightarrow> ToCSegment option" where
  "disconnectLinkedListNode node seg =
     (case seg node of None \<Rightarrow> None
      | Some e \<Rightarrow>
        (case (case prev (lruNode e) of
                 Some p \<Rightarrow> set_next p (next (lruNode e)) seg
               | None \<Rightarrow> Some seg) of None \<Rightarrow> None
         | Some seg1 \<Rightarrow>
           (case set_prev node None seg1 of None \<Rightarrow> None
            | Some seg2 \<Rightarrow>
              (case seg2 node of None \<Rightarrow> None
               | Some e2 \<Rightarrow>
                 (case (case next (lruNode e2) of
                          Some n \<Rightarrow> set_prev n (prev (lruNode e2)) seg2
                        | None \<Rightarrow> Some seg2) of None \<Rightarrow> None
                  | Some seg3 \<Rightarrow> set_next node None seg3)))))"

definition insertLinkedListNode ::
  "addr \<Rightarrow> addr option \<Rightarrow> addr option \<Rightarrow> ToCSegment \<Rightarrow> ToCSegment option" where
  "insertLinkedListNode node p n seg =
     (case (case p of Some pa \<Rightarrow> set_next pa (Some node) seg | None \<Rightarrow> Some seg) of
        None \<Rightarrow> None
      | Some seg1 \<Rightarrow>
        (case set_prev node p seg1 of None \<Rightarrow> None
         | Some seg2 \<Rightarrow>
           (case (case n of Some na \<Rightarrow> set_prev na (Some node) seg2 | None \<Rightarrow> Some seg2) of
              None \<Rightarrow> None
            | Some seg3 \<Rightarrow> set_next node n seg3)))"

text \<open>
  The links of the node of the header \<open>e\<close> at \<open>a\<close> can be followed: each of \<open>prev\<close> and
  \<open>next\<close> is null or the offset of another live header.
\<close>

definition nodeLinksValid :: "ToCSegment \<Rightarrow> addr \<Rightarrow> MemorySegmentEntryHeader \<Rightarrow> bool" where
  "nodeLinksValid seg a e =
     ((case prev (lruNode e) of None \<Rightarrow> True | Some p \<Rightarrow> p \<noteq> a \<and> seg p \<noteq> None)
      \<and> (case next (lruNode e) of None \<Rightarrow> True | Some n \<Rightarrow> n \<noteq> a \<and> seg n \<noteq> None))"

text \<open>
  The header \<open>e\<close> with the links of its LRU node cleared: what is left of a header when
  the pointers to its neighbours in the list are not looked at.
\<close>

definition withoutLinks :: "MemorySegmentEntryHeader \<Rightarrow> MemorySegmentEntryHeader" where
  "withoutLinks e = e\<lparr>lruNode := (lruNode e)\<lparr>prev := None, next := None\<rparr>\<rparr>"

subsection \<open>Deallocation of an entry\<close>

text \<open>
  \<open>getTileIndex\<close>: the file index is the low 32 bits of the encoded index, the tile
  index the high 32 bits. The result is the pair (tile index, file index).
\<close>

definition getTileIndex :: "U64 \<Rightarrow> 32 word \<times> 32 word" where
  "getTileIndex encoded = (ucast (drop_bit 32 encoded), ucast encoded)"

text \<open>
  The body of the loop over the tiles of a deallocated entry: the bucket that receives
  the tile is \<open>tileIndex % NATRON_NUM_TILES_PER_BUCKET_FILE\<close>. Invalidating the pages of
  the tile in the storage file changes nothing in the model.
\<close>

definition freeTile :: "U64 \<Rightarrow> Cache \<Rightarrow> Cache" where
  "freeTile t c =
     (let tileIndex = fst (getTileIndex t);
          tileBucketIndex = unat tileIndex mod NATRON_NUM_TILES_PER_BUCKET_FILE
      in upd_bucket tileBucketIndex
           (\<lambda>b. b\<lparr>freeTiles := insort_insert t (freeTiles b)\<rparr>) c)"

text \<open>The bucket to which deallocation returns a tile.\<close>

definition tileOwnerOnFree :: "U64 \<Rightarrow> nat" where
  "tileOwnerOnFree t = unat (fst (getTileIndex t)) mod NATRON_NUM_TILES_PER_BUCKET_FILE"

text \<open>
  \<open>CacheBucket::deallocateCacheEntryImpl\<close> on the bucket \<open>bucketIndex\<close>, for the
  iterator that points to the pair of \<open>h\<close> and the header at \<open>a\<close>.
\<close>

definition deallocateCacheEntryImpl :: "nat \<Rightarrow> U64 \<Rightarrow> addr \<Rightarrow> Cache \<Rightarrow> error + Cache" where
  "deallocateCacheEntryImpl bucketIndex h a c =
     (case segment (buckets c bucketIndex) a of None \<Rightarrow> Inl InvalidPointer
      | Some e \<Rightarrow>
        let c1 = upd_bucket bucketIndex
                   (\<lambda>b. b\<lparr>size_bucket := size_bucket b - size_entry e\<rparr>) c;
            c2 = (if tileIndices e \<noteq> [] then
                    upd_bucket bucketIndex
                      (\<lambda>b. b\<lparr>segment := (segment b)(a \<mapsto> e\<lparr>tileIndices := []\<rparr>)\<rparr>)
                      (fold freeTile (tileIndices e)
                         (upd_bucket bucketIndex
                            (\<lambda>b. b\<lparr>size_bucket := size_bucket b
                                   - of_nat (length (tileIndices e)) * NATRON_TILE_SIZE_BYTES\<rparr>) c1))
                  else c1);
            b = buckets c2 bucketIndex;
            b1 = (if lruListBack b = Some a then b\<lparr>lruListBack := prev (lruNode e)\<rparr> else b);
            b2 = (if lruListFront b1 = Some a then b1\<lparr>lruListFront := prev (lruNode e)\<rparr> else b1)
        in (case disconnectLinkedListNode a (segment b2) of None \<Rightarrow> Inl InvalidPointer
            | Some seg \<Rightarrow>
              Inr (c2\<lparr>buckets := (buckets c2)(bucketIndex :=
                     b2\<lparr>segment := seg(a := None),
                        entriesMap := filter (\<lambda>p. fst p \<noteq> h) (entriesMap b2)\<rparr>)\<rparr>)))"

subsection \<open>Lookup\<close>

definition tryCacheLookupImpl :: "CacheBucket \<Rightarrow> U64 \<Rightarrow> addr option" where
  "tryCacheLookupImpl b h = map_of (entriesMap b) h"

datatype ShmEntryReadRetCodeEnum =
    eShmEntryReadRetCodeOk
  | eShmEntryReadRetCodeDeserializationFailed
  | eShmEntryReadRetCodeOutOfMemory
  | eShmEntryReadRetCodeNeedWriteLock

text \<open>
  \<open>CacheBucket<true>::deserializeEntry\<close>. The hash property is checked first; then the
  payload is read, and the hash recomputed from the deserialized payload is compared with
  the hash looked up. \<open>n\<close> is the size of the table-of-contents file.
\<close>

definition deserializeEntry ::
  "nat \<Rightarrow> MemorySegmentEntryHeader \<Rightarrow> CacheEntryBase \<Rightarrow> U64 \<Rightarrow> bool \<Rightarrow> ShmEntryReadRetCodeEnum" where
  "deserializeEntry n cacheEntry ple h hasWriteRights =
     (case properties cacheEntry kNatronIPCPropertyHash of
        None \<Rightarrow> eShmEntryReadRetCodeDeserializationFailed
      | Some serializedHash \<Rightarrow>
        if serializedHash \<noteq> h then eShmEntryReadRetCodeDeserializationFailed
        else (case fromMemorySegment ple n hasWriteRights (properties cacheEntry) of
                ThrowsBadAlloc \<Rightarrow>
                  if hasWriteRights then eShmEntryReadRetCodeOutOfMemory
                  else eShmEntryReadRetCodeDeserializationFailed
              | ThrowsException \<Rightarrow> eShmEntryReadRetCodeDeserializationFailed
              | Returns eFromMemorySegmentRetCodeFailed \<Rightarrow>
                  eShmEntryReadRetCodeDeserializationFailed
              | Returns eFromMemorySegmentRetCodeNeedWriteLock \<Rightarrow>
                  if hasWriteRights then eShmEntryReadRetCodeDeserializationFailed
                  else eShmEntryReadRetCodeNeedWriteLock
              | Returns eFromMemorySegmentRetCodeOk \<Rightarrow>
                  if getHashKeyForced ple (properties cacheEntry) \<noteq> h
                  then eShmEntryReadRetCodeDeserializationFailed
                  else eShmEntryReadRetCodeOk))"

text \<open>
  \<open>CacheBucket::readFromSharedMemoryEntryImpl\<close> on the header at \<open>a\<close>: deserialize (in
  the persistent cache), then move the node to the back of the LRU list unless it is the
  back already.
\<close>

definition readFromSharedMemoryEntryImpl ::
  "bool \<Rightarrow> addr \<Rightarrow> CacheEntryBase \<Rightarrow> U64 \<Rightarrow> bool \<Rightarrow> CacheBucket
     \<Rightarrow> error + (ShmEntryReadRetCodeEnum \<times> CacheBucket)" where
  "readFromSharedMemoryEntryImpl pers a ple h hasWriteRights b =
     (case segment b a of None \<Rightarrow> Inl InvalidPointer
      | Some cacheEntry \<Rightarrow>
        let ret = (if pers then deserializeEntry (tocFileSize b) cacheEntry ple h hasWriteRights
                   else eShmEntryReadRetCodeOk)
        in if ret \<noteq> eShmEntryReadRetCodeOk then Inr (ret, b)
           else if lruListBack b \<noteq> Some a then
             (case disconnectLinkedListNode a (segment b) of None \<Rightarrow> Inl InvalidPointer
              | Some seg1 \<Rightarrow>
                (case insertLinkedListNode a (lruListBack b) None seg1 of
                   None \<Rightarrow> Inl InvalidPointer
                 | Some seg2 \<Rightarrow>
                   Inr (eShmEntryReadRetCodeOk, b\<lparr>segment := seg2, lruListBack := Some a\<rparr>)))
           else Inr (eShmEntryReadRetCodeOk, b))"

datatype LookUpRetCodeEnum =
    eLookUpRetCodeFound
  | eLookUpRetCodeNotFound
  | eLookUpRetCodeOutOfMemory

text \<open>
  \<open>CacheEntryLockerPrivate::lookupAndSetStatusInternal\<close>. \<open>thread\<close> is the value of
  \<open>QThread::currentThread()\<close>; \<open>timeSpent\<close> is the value pointed to by
  \<open>timeSpentWaitingForPendingEntryMS\<close>. The three tests on the status of the entry follow
  each other as in the source; the last one is the \<open>if\<close> with the \<open>else\<close> branch that
  marks the entry pending.
\<close>

definition lookupAndSetStatusInternal ::
  "U64 \<Rightarrow> bool \<Rightarrow> bool \<Rightarrow> nat \<Rightarrow> nat \<Rightarrow> CacheEntryLocker \<Rightarrow> Cache
     \<Rightarrow> error + (LookUpRetCodeEnum \<times> CacheEntryLocker \<times> Cache)" where
  "lookupAndSetStatusInternal thread hasWriteRights removeIfOOM timeSpent timeout l0 c =
     (let l = l0\<lparr>status_locker := eCacheEntryStatusMustCompute\<rparr> in
      case bucket l of None \<Rightarrow> Inl InvalidPointer
      | Some bi \<Rightarrow>
        (case tryCacheLookupImpl (buckets c bi) (hash_locker l) of
           None \<Rightarrow> Inr (eLookUpRetCodeNotFound, l, c)
         | Some a \<Rightarrow>
           (case segment (buckets c bi) a of None \<Rightarrow> Inl InvalidPointer
            | Some e \<Rightarrow>
              if status e = eEntryStatusNull \<and> \<not> hasWriteRights
              then Inr (eLookUpRetCodeNotFound, l, c)
              else if status e = eEntryStatusPending
                      \<and> \<not> (\<not> allowMultipleFetchForThread (processLocalEntry l)
                             \<and> computeThreadMagic e = thread)
                      \<and> (timeout = 0 \<or> timeSpent < timeout)
              then Inr (eLookUpRetCodeFound,
                        l\<lparr>status_locker := eCacheEntryStatusComputationPending\<rparr>, c)
              else if status e = eEntryStatusPending \<and> \<not> hasWriteRights
              then Inr (eLookUpRetCodeNotFound, l, c)
              else if status e = eEntryStatusReady then
                (case readFromSharedMemoryEntryImpl (persistent c) a (processLocalEntry l)
                        (hash_locker l) hasWriteRights (buckets c bi) of
                   Inl err \<Rightarrow> Inl err
                 | Inr (readStatus, b') \<Rightarrow>
                   let c' = c\<lparr>buckets := (buckets c)(bi := b')\<rparr> in
                   (case readStatus of
                      eShmEntryReadRetCodeOk \<Rightarrow>
                        Inr (eLookUpRetCodeFound,
                             l\<lparr>processLocalEntry :=
                                  (if persistent c then processLocalEntry l
                                   else (case nonPersistentEntry e of
                                           Some p \<Rightarrow> p | None \<Rightarrow> processLocalEntry l)),
                               status_locker := eCacheEntryStatusCached\<rparr>, c')
                    | eShmEntryReadRetCodeDeserializationFailed \<Rightarrow>
                        if hasWriteRights then
                          (case deallocateCacheEntryImpl bi (hash_locker l) a c' of
                             Inl err \<Rightarrow> Inl err
                           | Inr c'' \<Rightarrow> Inr (eLookUpRetCodeNotFound, l, c''))
                        else Inr (eLookUpRetCodeNotFound, l, c')
                    | eShmEntryReadRetCodeNeedWriteLock \<Rightarrow> Inr (eLookUpRetCodeNotFound, l, c')
                    | eShmEntryReadRetCodeOutOfMemory \<Rightarrow>
                        if removeIfOOM \<and> hasWriteRights then
                          (case deallocateCacheEntryImpl bi (hash_locker l) a c' of
                             Inl err \<Rightarrow> Inl err
                           | Inr c'' \<Rightarrow> Inr (eLookUpRetCodeNotFound, l, c''))
                        else Inr (eLookUpRetCodeOutOfMemory, l, c')))
              else
                Inr (eLookUpRetCodeFound, l\<lparr>status_locker := eCacheEntryStatusMustCompute\<rparr>,
                     upd_bucket bi
                       (\<lambda>b. b\<lparr>segment := (segment b)(a \<mapsto> e\<lparr>status := eEntryStatusPending\<rparr>)\<rparr>)
                       c))))"

subsection \<open>Growing the table of contents, tile storage files, wiping the cache\<close>

text \<open>
  The conversion of a \<open>std::size_t\<close> to \<open>double\<close>: a value of more than 53 bits is
  rounded to 53 significant bits, to the nearest, and to the even one on a tie.
  \<open>bitLength\<close> is the number of bits of a natural number.
\<close>

fun bitLength :: "nat \<Rightarrow> nat" where
  "bitLength n = (if n = 0 then 0 else Suc (bitLength (n div 2)))"

declare bitLength.simps [simp del]

definition doubleOfSize :: "nat \<Rightarrow> nat" where
  "doubleOfSize x =
     (if x < 2 ^ 53 then x
      else let k = bitLength x - 53; q = x div 2 ^ k; r = x mod 2 ^ k
           in (if 2 * r > 2 ^ k \<or> (2 * r = 2 ^ k \<and> odd q) then q + 1 else q) * 2 ^ k)"

text \<open>
  \<open>CacheBucket::growToCFile\<close>: the file grows by \<open>bytesToAdd\<close> rounded up to a multiple
  of the growth quantum, and by one quantum at least. The quotient is computed in double
  precision: \<open>bytesToAdd\<close> is converted to \<open>double\<close>; the division by the quantum, a
  power of two, the rounding up and the conversion back are exact. The product and the
  new size are computed in \<open>std::size_t\<close>, modulo \<open>2^64\<close>. The data in the file is
  preserved. The flags that coordinate the remapping between processes are not modelled:
  the mapping of the only process is always valid.
\<close>

definition growToCFile :: "nat \<Rightarrow> CacheBucket \<Rightarrow> CacheBucket" where
  "growToCFile bytesToAdd b =
     (let bytesToAddRounded =
            (max 1 ((doubleOfSize (bytesToAdd mod 2 ^ 64)
                       + NATRON_CACHE_BUCKET_TOC_FILE_GROW_N_BYTES - 1)
                      div NATRON_CACHE_BUCKET_TOC_FILE_GROW_N_BYTES)
               * NATRON_CACHE_BUCKET_TOC_FILE_GROW_N_BYTES) mod 2 ^ 64
      in b\<lparr>tocFileSize := (tocFileSize b + bytesToAddRounded) mod 2 ^ 64\<rparr>)"

text \<open>
  The bucket that \<open>CacheBucketIPCData\<close>'s constructor builds in a file that was just
  created: \<open>remapToCMemoryFile\<close> finds the size 0 and grows the file by one quantum.
\<close>

definition emptyBucket :: CacheBucket where
  "emptyBucket = \<lparr>lruListFront = None, lruListBack = None, bucketState = eBucketStateOk,
                   size_bucket = 0, entriesMap = [], freeTiles = [], segment = Map.empty,
                   tocFileSize = NATRON_CACHE_BUCKET_TOC_FILE_GROW_N_BYTES\<rparr>"

text \<open>
  \<open>CachePrivate::createTileStorage\<close>: a file is appended, and bucket \<open>bucket_i\<close> receives
  the encoded indices of the tiles \<open>bucket_i * 256\<close> to \<open>bucket_i * 256 + 255\<close> of the new
  file. The temporary set is the union of the free tiles and the new indices; it replaces
  the free tiles. The handler of \<open>bad_alloc\<close> is not modelled: the insertion into the
  set succeeds.
\<close>

definition encodeTileIndex :: "nat \<Rightarrow> nat \<Rightarrow> U64" where
  "encodeTileIndex i fileIndex = push_bit 32 (of_nat i) OR of_nat fileIndex"

definition newTilesOfBucket :: "nat \<Rightarrow> nat \<Rightarrow> U64 list" where
  "newTilesOfBucket fileIndex bucket_i =
     map (\<lambda>i. encodeTileIndex i fileIndex)
       [bucket_i * NATRON_NUM_TILES_PER_BUCKET_FILE
          ..< bucket_i * NATRON_NUM_TILES_PER_BUCKET_FILE + NATRON_NUM_TILES_PER_BUCKET_FILE]"

definition createTileStorage :: "Cache \<Rightarrow> Cache" where
  "createTileStorage c =
     (if \<not> useTileStorage c then c
      else let fileIndex = tilesStorage c in
        fold (\<lambda>bucket_i. upd_bucket bucket_i
                (\<lambda>b. b\<lparr>freeTiles := fold insort_insert (newTilesOfBucket fileIndex bucket_i)
                                        (freeTiles b)\<rparr>))
          [0 ..< NATRON_CACHE_BUCKETS_COUNT]
          (c\<lparr>tilesStorage := tilesStorage c + 1\<rparr>))"

text \<open>
  \<open>Cache::clear\<close>: the tile storage files are removed, the file of every bucket is
  truncated and created again, and one tile storage file is created.
  \<open>recoverFromInconsistentState\<close> wipes the cache in this way. The wiped cache depends
  only on the configuration (\<open>maximumSize\<close>, \<open>useTileStorage\<close>, \<open>persistent\<close>), which
  no operation changes; the model therefore wipes the cache as it was when the operation
  that threw started.
\<close>

definition clear :: "Cache \<Rightarrow> Cache" where
  "clear c = createTileStorage (c\<lparr>tilesStorage := 0, buckets := (\<lambda>i. emptyBucket)\<rparr>)"

definition recoverFromInconsistentState :: "Cache \<Rightarrow> Cache" where
  "recoverFromInconsistentState c = clear c"

subsection \<open>Allocating tiles to an entry\<close>

text \<open>
  \<open>getBucketIndexForTile\<close>: the bucket whose free tiles serve the tile \<open>tileIndex\<close> of the
  entry with the hash \<open>entryHash\<close>.
\<close>

definition getBucketIndexForTile :: "U64 \<Rightarrow> U64 \<Rightarrow> nat" where
  "getBucketIndexForTile entryHash tileIndex = getBucketCacheBucketIndex (entryHash + tileIndex)"

text \<open>
  The body of the loop over \<open>tilesToAlloc\<close> in \<open>Cache::retrieveAndLockTiles\<close>, and the
  loop. When the bucket of the tile has no free tile, a storage file is created; then the
  first free tile of the bucket is taken. The second component \<open>None\<close> stands for
  \<open>return false\<close>, which the source does when the file index of the tile names no storage
  file. Taking the first element of an empty set is undefined behaviour in the source;
  the model stops there with \<open>InvalidPointer\<close>. The pointers into the storage files are
  not modelled: the result holds the encoded indices of the tiles taken, in the order of
  \<open>allocatedTilesData\<close>.
\<close>

definition takeFreeTile :: "U64 \<Rightarrow> U64 \<Rightarrow> Cache \<Rightarrow> error + (U64 option \<times> Cache)" where
  "takeFreeTile entryHash t c =
     (let bucketIndex = getBucketIndexForTile entryHash t;
          c1 = (if freeTiles (buckets c bucketIndex) = [] then createTileStorage c else c)
      in case freeTiles (buckets c1 bucketIndex) of
           [] \<Rightarrow> Inl InvalidPointer
         | freeTileEncodedIndex # rest \<Rightarrow>
             let c2 = upd_bucket bucketIndex (\<lambda>b. b\<lparr>freeTiles := rest\<rparr>) c1
             in if unat (snd (getTileIndex freeTileEncodedIndex)) < tilesStorage c2
                then Inr (Some freeTileEncodedIndex, c2)
                else Inr (None, c2))"

fun takeFreeTiles ::
  "U64 \<Rightarrow> U64 list \<Rightarrow> U64 list \<Rightarrow> Cache \<Rightarrow> error + (U64 list option \<times> Cache)" where
  "takeFreeTiles entryHash [] allocated c = Inr (Some allocated, c)"
| "takeFreeTiles entryHash (t # ts) allocated c =
     (case takeFreeTile entryHash t c of
        Inl err \<Rightarrow> Inl err
      | Inr (None, c') \<Rightarrow> Inr (None, c')
      | Inr (Some f, c') \<Rightarrow> takeFreeTiles entryHash ts (allocated @ [f]) c')"

text \<open>
  \<open>CachePrivate::freeAllocatedTiles\<close>: each tile taken goes back to the free tiles of
  the bucket it was taken from. The insertion into the set succeeds.
\<close>

definition freeAllocatedTiles :: "U64 \<Rightarrow> U64 list \<Rightarrow> U64 list \<Rightarrow> Cache \<Rightarrow> Cache" where
  "freeAllocatedTiles entryHash tilesToAlloc allocatedTiles c =
     fold (\<lambda>(t, f). upd_bucket (getBucketIndexForTile entryHash t)
                      (\<lambda>b. b\<lparr>freeTiles := insort_insert f (freeTiles b)\<rparr>))
       (zip tilesToAlloc allocatedTiles) c"

text \<open>
  The loop of \<open>retrieveAndLockTiles\<close> that stores the tile list \<open>tmpSet\<close> in the header
  at \<open>a\<close>, two attempts at most. \<open>tileListAlloc\<close> tells whether the insertion into the
  list succeeds in a file of the given size. When it throws \<open>bad_alloc\<close> the list is
  empty, as it was cleared before the insertion; the file is grown by twice the bytes of
  the indices and the entry is looked up again. The first component \<open>False\<close> stands for
  \<open>return false\<close>.
\<close>

function storeTileIndices ::
  "(nat \<Rightarrow> bool) \<Rightarrow> nat \<Rightarrow> nat \<Rightarrow> U64 \<Rightarrow> addr \<Rightarrow> U64 list \<Rightarrow> U64 list \<Rightarrow> U64 list
     \<Rightarrow> Cache \<Rightarrow> error + (bool \<times> Cache)" where
  "storeTileIndices tileListAlloc nAttempts bi entryHash a tmpSet tilesToAlloc allocated c =
     (if nAttempts < 2 then
        (case segment (buckets c bi) a of None \<Rightarrow> Inl InvalidPointer
         | Some e \<Rightarrow>
           if tileListAlloc (tocFileSize (buckets c bi))
           then Inr (True, upd_bucket bi
                             (\<lambda>b. b\<lparr>segment := (segment b)(a \<mapsto> e\<lparr>tileIndices := tmpSet\<rparr>)\<rparr>) c)
           else
             let c1 = upd_bucket bi
                        (\<lambda>b. growToCFile (length tmpSet * 8 * 2)
                               (b\<lparr>segment := (segment b)(a \<mapsto> e\<lparr>tileIndices := []\<rparr>)\<rparr>)) c
             in (case tryCacheLookupImpl (buckets c1 bi) entryHash of
                   None \<Rightarrow> Inr (False, freeAllocatedTiles entryHash tilesToAlloc allocated c1)
                 | Some a' \<Rightarrow>
                     storeTileIndices tileListAlloc (nAttempts + 1) bi entryHash a' tmpSet
                       tilesToAlloc allocated c1))
      else Inr (True, c))"
  by pat_completeness auto
termination
  by (relation "measure (\<lambda>(tileListAlloc, nAttempts, bi, entryHash, a, tmpSet, tilesToAlloc,
                            allocated, c). 2 - nAttempts)")
     auto

text \<open>
  \<open>Cache::retrieveAndLockTiles\<close>. \<open>tileIndices_arg\<close> are the tiles of the entry whose
  data the caller asks for, \<open>tilesToAlloc\<close> the tiles to allocate; a null vector is the
  empty list. The tiles are taken from the free tiles first; then the entry is looked up
  in its bucket, the size of the bucket grows by \<open>NATRON_TILE_SIZE_BYTES\<close> per tile and
  the tile list of the entry is stored. The result is \<open>false\<close> when a tile that the
  caller asks for names no storage file. Nothing in the body throws in the model, so the
  handler that wipes the cache is not reached.
\<close>

definition retrieveAndLockTiles ::
  "(nat \<Rightarrow> bool) \<Rightarrow> CacheEntryBase \<Rightarrow> U64 list \<Rightarrow> U64 list \<Rightarrow> Cache
     \<Rightarrow> error + (bool \<times> Cache)" where
  "retrieveAndLockTiles tileListAlloc entry tileIndices_arg tilesToAlloc c =
     (if tileIndices_arg = [] \<and> tilesToAlloc = [] then Inr (True, c)
      else
        let entryHash = getHashKey entry in
        (case takeFreeTiles entryHash tilesToAlloc [] c of
           Inl err \<Rightarrow> Inl err
         | Inr (None, c1) \<Rightarrow> Inr (False, c1)
         | Inr (Some allocated, c1) \<Rightarrow>
           (case (if tilesToAlloc = [] then Inr (True, c1)
                  else
                    let cacheEntryBucketIndex = getBucketCacheBucketIndex entryHash in
                    (case tryCacheLookupImpl (buckets c1 cacheEntryBucketIndex) entryHash of
                       None \<Rightarrow>
                         Inr (False, freeAllocatedTiles entryHash tilesToAlloc allocated c1)
                     | Some a \<Rightarrow>
                       (case segment (buckets c1 cacheEntryBucketIndex) a of
                          None \<Rightarrow> Inl InvalidPointer
                        | Some e \<Rightarrow>
                            storeTileIndices tileListAlloc 0 cacheEntryBucketIndex entryHash a
                              (tileIndices e @ allocated) tilesToAlloc allocated
                              (upd_bucket cacheEntryBucketIndex
                                 (\<lambda>b. b\<lparr>size_bucket := size_bucket b
                                        + of_nat (length tilesToAlloc) * NATRON_TILE_SIZE_BYTES\<rparr>)
                                 c1)))) of
              Inl err \<Rightarrow> Inl err
            | Inr (False, c3) \<Rightarrow> Inr (False, c3)
            | Inr (True, c3) \<Rightarrow>
                Inr (list_all (\<lambda>t. unat (snd (getTileIndex t)) < tilesStorage c3)
                       tileIndices_arg, c3))))"

subsection \<open>Reserving an entry\<close>

text \<open>
  \<open>BucketStateHandler_RAII\<close>: the constructor throws when the bucket is not in the state
  \<open>eBucketStateOk\<close> and marks it inconsistent; the destructor marks it ok again.
\<close>

definition BucketStateHandler_enter :: "nat \<Rightarrow> Cache \<Rightarrow> error + Cache" where
  "BucketStateHandler_enter bi c =
     (if bucketState (buckets c bi) \<noteq> eBucketStateOk then Inl CorruptedCacheException
      else Inr (upd_bucket bi (\<lambda>b. b\<lparr>bucketState := eBucketStateInconsistent\<rparr>) c))"

definition BucketStateHandler_exit :: "nat \<Rightarrow> Cache \<Rightarrow> Cache" where
  "BucketStateHandler_exit bi c = upd_bucket bi (\<lambda>b. b\<lparr>bucketState := eBucketStateOk\<rparr>) c"

definition maxAttempts :: nat where
  "maxAttempts = 2"

text \<open>
  The loop at the head of \<open>lookupAndCreate\<close>. The first component of the result is
  \<open>True\<close> when the function returns \<open>eLookupAndCreateRetCodeCreated\<close> from inside the
  loop and \<open>False\<close> when the loop is left; the second tells whether the write lock on
  the file is held, which it is once the file was grown.
\<close>

function lookupAndCreate_loop ::
  "U64 \<Rightarrow> bool \<Rightarrow> nat \<Rightarrow> nat \<Rightarrow> nat \<Rightarrow> CacheEntryLocker \<Rightarrow> Cache
     \<Rightarrow> error + (bool \<times> bool \<times> CacheEntryLocker \<times> Cache)" where
  "lookupAndCreate_loop thread tocWriteLock timeSpent timeout nAttempts l c =
     (case lookupAndSetStatusInternal thread True (nAttempts = maxAttempts - 1)
             timeSpent timeout l c of
        Inl err \<Rightarrow> Inl err
      | Inr (stat, l', c') \<Rightarrow>
        (case stat of
           eLookUpRetCodeFound \<Rightarrow> Inr (True, tocWriteLock, l', c')
         | eLookUpRetCodeNotFound \<Rightarrow> Inr (False, tocWriteLock, l', c')
         | eLookUpRetCodeOutOfMemory \<Rightarrow>
             (case bucket l' of None \<Rightarrow> Inl InvalidPointer
              | Some bi \<Rightarrow>
                let c'' = upd_bucket bi
                            (growToCFile NATRON_CACHE_BUCKET_TOC_FILE_GROW_N_BYTES) c'
                in if nAttempts + 1 \<ge> maxAttempts then Inr (False, True, l', c'')
                   else lookupAndCreate_loop thread True timeSpent timeout
                          (nAttempts + 1) l' c'')))"
  by pat_completeness auto
termination
  by (relation "measure (\<lambda>(thread, tocWriteLock, timeSpent, timeout, nAttempts, l, c).
                           maxAttempts - nAttempts)")
     auto

datatype LookupAndCreateRetCodeEnum =
    eLookupAndCreateRetCodeCreated
  | eLookupAndCreateRetCodeOutOfToCMemory

text \<open>The header that \<open>MemorySegmentEntryHeader\<close>'s constructor builds.\<close>

definition newEntryHeader :: MemorySegmentEntryHeader where
  "newEntryHeader = \<lparr>size_entry = 0, status = eEntryStatusNull, computeThreadMagic = 0,
                      lruNode = \<lparr>prev = None, next = None, hash = 0\<rparr>, tileIndices = [],
                      pluginID = [], properties = Map.empty, nonPersistentEntry = None\<rparr>"

text \<open>
  \<open>CacheEntryLockerPrivate::lookupAndCreate\<close>. \<open>alloc\<close> is the segment allocator: given
  the size of the file it returns the offset of the constructed header, or \<open>None\<close> when it
  throws \<open>bad_alloc\<close>. \<open>std::map::insert\<close> keeps an existing pair with the same hash.
  The third component of the result tells whether the write lock on the file is held.
\<close>

definition lookupAndCreate ::
  "U64 \<Rightarrow> (nat \<Rightarrow> addr option) \<Rightarrow> bool \<Rightarrow> nat \<Rightarrow> nat \<Rightarrow> CacheEntryLocker \<Rightarrow> Cache
     \<Rightarrow> error + (LookupAndCreateRetCodeEnum \<times> bool \<times> CacheEntryLocker \<times> Cache)" where
  "lookupAndCreate thread alloc tocWriteLock timeSpent timeout l c =
     (case lookupAndCreate_loop thread tocWriteLock timeSpent timeout 0 l c of
        Inl err \<Rightarrow> Inl err
      | Inr (returned, tocWriteLock', l', c') \<Rightarrow>
        if returned then Inr (eLookupAndCreateRetCodeCreated, tocWriteLock', l', c')
        else (case bucket l' of None \<Rightarrow> Inl InvalidPointer
              | Some bi \<Rightarrow>
                (case BucketStateHandler_enter bi c' of
                   Inl err \<Rightarrow> Inl err
                 | Inr c1 \<Rightarrow>
                   (case alloc (tocFileSize (buckets c1 bi)) of
                      None \<Rightarrow>
                        Inr (eLookupAndCreateRetCodeOutOfToCMemory, tocWriteLock', l',
                             BucketStateHandler_exit bi c1)
                    | Some p \<Rightarrow>
                        let cacheEntry = newEntryHeader
                              \<lparr>nonPersistentEntry :=
                                 (if persistent c1 then None else Some (processLocalEntry l')),
                               size_entry := getMetadataSize (processLocalEntry l'),
                               pluginID := getHolderPluginID (processLocalEntry l'),
                               status := eEntryStatusPending,
                               computeThreadMagic := thread\<rparr>;
                            c2 = upd_bucket bi
                                   (\<lambda>b. b\<lparr>segment := (segment b)(p \<mapsto> cacheEntry),
                                          entriesMap :=
                                            (if map_of (entriesMap b) (hash_locker l') = None
                                             then entriesMap b @ [(hash_locker l', p)]
                                             else entriesMap b)\<rparr>) c1
                        in Inr (eLookupAndCreateRetCodeCreated, tocWriteLock', l',
                                BucketStateHandler_exit bi c2)))))"

text \<open>
  The loop of \<open>lookupAndSetStatus\<close> that calls \<open>lookupAndCreate\<close> twice at most. When
  the allocator is out of memory in the persistent cache, the write lock on the file is
  taken if it is not held, and the file is grown only if the lock was held already (the
  mapping is valid). An exception wipes the cache; the status of the locker is then
  \<open>eCacheEntryStatusMustCompute\<close>, as \<open>lookupAndCreate\<close> throws after its loop only.
\<close>

function lookupAndSetStatus_loop ::
  "U64 \<Rightarrow> (nat \<Rightarrow> addr option) \<Rightarrow> nat \<Rightarrow> bool \<Rightarrow> nat \<Rightarrow> nat \<Rightarrow> CacheEntryLocker \<Rightarrow> Cache
     \<Rightarrow> error + (CacheEntryLocker \<times> Cache)" where
  "lookupAndSetStatus_loop thread alloc attempt_i tocWriteLock timeSpent timeout l c =
     (if attempt_i < 2 then
        (case lookupAndCreate thread alloc tocWriteLock timeSpent timeout l c of
           Inl CorruptedCacheException \<Rightarrow>
             Inr (l\<lparr>status_locker := eCacheEntryStatusMustCompute\<rparr>,
                  recoverFromInconsistentState c)
         | Inl InvalidPointer \<Rightarrow> Inl InvalidPointer
         | Inr (stat, tocWriteLock', l', c') \<Rightarrow>
           (case stat of
              eLookupAndCreateRetCodeCreated \<Rightarrow> Inr (l', c')
            | eLookupAndCreateRetCodeOutOfToCMemory \<Rightarrow>
                (case bucket l' of None \<Rightarrow> Inl InvalidPointer
                 | Some bi \<Rightarrow>
                   let c'' = (if persistent c' \<and> tocWriteLock' then
                                upd_bucket bi
                                  (growToCFile (unat (getMetadataSize (processLocalEntry l')))) c'
                              else c')
                   in lookupAndSetStatus_loop thread alloc (attempt_i + 1)
                        (tocWriteLock' \<or> persistent c') timeSpent timeout l' c'')))
      else Inr (l, c))"
  by pat_completeness auto
termination
  by (relation "measure (\<lambda>(thread, alloc, attempt_i, tocWriteLock, timeSpent, timeout, l, c).
                           2 - attempt_i)")
     auto

text \<open>
  \<open>CacheEntryLockerPrivate::lookupAndSetStatus\<close>: the bucket is taken from the hash the
  first time, the entry is looked up under the read lock, and under the write lock when
  that lookup does not find it.
\<close>

definition lookupAndSetStatus ::
  "U64 \<Rightarrow> (nat \<Rightarrow> addr option) \<Rightarrow> nat \<Rightarrow> nat \<Rightarrow> CacheEntryLocker \<Rightarrow> Cache
     \<Rightarrow> error + (CacheEntryLocker \<times> Cache)" where
  "lookupAndSetStatus thread alloc timeSpent timeout l0 c =
     (let l = (case bucket l0 of
                 None \<Rightarrow> l0\<lparr>bucket := Some (getBucketCacheBucketIndex (hash_locker l0))\<rparr>
               | Some bi \<Rightarrow> l0)
      in case lookupAndSetStatusInternal thread False False timeSpent timeout l c of
           Inl CorruptedCacheException \<Rightarrow>
             Inr (l\<lparr>status_locker := eCacheEntryStatusMustCompute\<rparr>,
                  recoverFromInconsistentState c)
         | Inl InvalidPointer \<Rightarrow> Inl InvalidPointer
         | Inr (stat, l', c') \<Rightarrow>
           (case stat of
              eLookUpRetCodeFound \<Rightarrow> Inr (l', c')
            | eLookUpRetCodeNotFound \<Rightarrow>
                lookupAndSetStatus_loop thread alloc 0 False timeSpent timeout l' c'
            | eLookUpRetCodeOutOfMemory \<Rightarrow>
                lookupAndSetStatus_loop thread alloc 0 False timeSpent timeout l' c'))"

text \<open>
  \<open>CacheEntryLocker::create\<close>, which is what \<open>Cache::get\<close> returns: a locker for the
  entry, looked up once with no time spent waiting and no timeout.
\<close>

definition CacheEntryLocker_create ::
  "U64 \<Rightarrow> (nat \<Rightarrow> addr option) \<Rightarrow> CacheEntryBase \<Rightarrow> Cache
     \<Rightarrow> error + (CacheEntryLocker \<times> Cache)" where
  "CacheEntryLocker_create thread alloc entry c =
     lookupAndSetStatus thread alloc 0 0
       \<lparr>processLocalEntry = entry, hash_locker = getHashKey entry, bucket = None,
        status_locker = eCacheEntryStatusMustCompute\<rparr> c"

definition Cache_get ::
  "U64 \<Rightarrow> (nat \<Rightarrow> addr option) \<Rightarrow> CacheEntryBase \<Rightarrow> Cache
     \<Rightarrow> error + (CacheEntryLocker \<times> Cache)" where
  "Cache_get thread alloc entry c = CacheEntryLocker_create thread alloc entry c"

text \<open>
  The calls of \<open>Cache::get\<close> for the same entry by the threads of a list, one after the
  other, each running under the locks of the bucket as the source runs it: the statuses
  of the lockers in the order of the calls, and the cache after the last call.
\<close>

fun getsInTurn ::
  "U64 list \<Rightarrow> (nat \<Rightarrow> addr option) \<Rightarrow> CacheEntryBase \<Rightarrow> Cache
     \<Rightarrow> error + (CacheEntryStatusEnum list \<times> Cache)" where
  "getsInTurn [] alloc entry c = Inr ([], c)"
| "getsInTurn (thread # threads) alloc entry c =
     (case Cache_get thread alloc entry c of
        Inl err \<Rightarrow> Inl err
      | Inr (l, c1) \<Rightarrow>
        (case getsInTurn threads alloc entry c1 of
           Inl err \<Rightarrow> Inl err
         | Inr (statuses, c2) \<Rightarrow> Inr (status_locker l # statuses, c2)))"

subsection \<open>Inserting the computed entry\<close>

datatype InsertRetCodeEnum =
    eInsertRetCodeCreated
  | eInsertRetCodeOutOfToCMemory
  | eInsertRetCodeFailed

text \<open>
  \<open>CacheEntryLockerPrivate<true>::serializeCacheEntry\<close>: the payload is written, then
  the hash property. \<open>propAlloc\<close> tells whether the allocation of the hash property
  succeeds in a file of the given size. On \<open>bad_alloc\<close> the properties are cleared.
\<close>

definition serializeCacheEntry ::
  "(nat \<Rightarrow> bool) \<Rightarrow> nat \<Rightarrow> CacheEntryBase \<Rightarrow> U64 \<Rightarrow> MemorySegmentEntryHeader
     \<Rightarrow> InsertRetCodeEnum \<times> MemorySegmentEntryHeader" where
  "serializeCacheEntry propAlloc n ple h entry =
     (case toMemorySegment ple n (properties entry) of
        None \<Rightarrow> (eInsertRetCodeOutOfToCMemory, entry\<lparr>properties := Map.empty\<rparr>)
      | Some props \<Rightarrow>
          if propAlloc n
          then (eInsertRetCodeCreated, entry\<lparr>properties := props(kNatronIPCPropertyHash \<mapsto> h)\<rparr>)
          else (eInsertRetCodeOutOfToCMemory, entry\<lparr>properties := Map.empty\<rparr>))"

text \<open>\<open>CacheEntryLockerPrivate::insertInternal\<close>.\<close>

definition insertInternal ::
  "(nat \<Rightarrow> bool) \<Rightarrow> CacheEntryLocker \<Rightarrow> Cache
     \<Rightarrow> error + (InsertRetCodeEnum \<times> CacheEntryLocker \<times> Cache)" where
  "insertInternal propAlloc l c =
     (case bucket l of None \<Rightarrow> Inl InvalidPointer
      | Some bi \<Rightarrow>
        (case BucketStateHandler_enter bi c of Inl err \<Rightarrow> Inl err
         | Inr c1 \<Rightarrow>
           let b = buckets c1 bi in
           (case tryCacheLookupImpl b (hash_locker l) of
              None \<Rightarrow> Inr (eInsertRetCodeCreated, l, BucketStateHandler_exit bi c1)
            | Some a \<Rightarrow>
              (case segment b a of None \<Rightarrow> Inl InvalidPointer
               | Some e \<Rightarrow>
                 if computeThreadMagic e = 0
                 then Inr (eInsertRetCodeCreated, l\<lparr>status_locker := eCacheEntryStatusCached\<rparr>,
                           BucketStateHandler_exit bi c1)
                 else
                   let (retCode, e1) =
                         (if persistent c1
                          then serializeCacheEntry propAlloc (tocFileSize b) (processLocalEntry l)
                                 (hash_locker l) e
                          else (eInsertRetCodeCreated, e))
                   in if retCode \<noteq> eInsertRetCodeCreated
                      then Inr (retCode, l,
                                BucketStateHandler_exit bi
                                  (upd_bucket bi (\<lambda>b. b\<lparr>segment := (segment b)(a \<mapsto> e1)\<rparr>) c1))
                      else
                        let e2 = e1\<lparr>lruNode := \<lparr>prev = None, next = None, hash = hash_locker l\<rparr>\<rparr>;
                            b1 = b\<lparr>size_bucket := size_bucket b + size_entry e1,
                                   segment := (segment b)(a \<mapsto> e2)\<rparr>
                        in (case (if lruListBack b1 = None
                                  then Some (b1\<lparr>lruListFront := Some a, lruListBack := Some a\<rparr>)
                                  else (case insertLinkedListNode a (lruListBack b1) None (segment b1) of
                                          None \<Rightarrow> None
                                        | Some seg \<Rightarrow> Some (b1\<lparr>segment := seg, lruListBack := Some a\<rparr>)))
                            of None \<Rightarrow> Inl InvalidPointer
                             | Some b2 \<Rightarrow>
                               (case segment b2 a of None \<Rightarrow> Inl InvalidPointer
                                | Some e3 \<Rightarrow>
                                  Inr (eInsertRetCodeCreated,
                                       l\<lparr>status_locker := eCacheEntryStatusCached\<rparr>,
                                       BucketStateHandler_exit bi
                                         (c1\<lparr>buckets := (buckets c1)(bi :=
                                            b2\<lparr>segment := (segment b2)(a \<mapsto>
                                                 e3\<lparr>computeThreadMagic := 0,
                                                    status := eEntryStatusReady\<rparr>)\<rparr>)\<rparr>))))))))"

text \<open>
  \<open>CacheEntryLocker::insertInCache\<close>: two attempts, the file is grown between them. The
  call \<open>appPTR->checkCachesMemory()\<close> that follows a successful insertion is outside
  the cache and is not modelled. An exception wipes the cache.
\<close>

function insertInCache_loop ::
  "(nat \<Rightarrow> bool) \<Rightarrow> nat \<Rightarrow> CacheEntryLocker \<Rightarrow> Cache \<Rightarrow> error + (CacheEntryLocker \<times> Cache)" where
  "insertInCache_loop propAlloc attempt_i l c =
     (if attempt_i < 2 then
        (case insertInternal propAlloc l c of
           Inl CorruptedCacheException \<Rightarrow> Inr (l, recoverFromInconsistentState c)
         | Inl InvalidPointer \<Rightarrow> Inl InvalidPointer
         | Inr (stat, l', c') \<Rightarrow>
           if stat = eInsertRetCodeCreated then Inr (l', c')
           else (case bucket l' of None \<Rightarrow> Inl InvalidPointer
                 | Some bi \<Rightarrow>
                     insertInCache_loop propAlloc (attempt_i + 1) l'
                       (upd_bucket bi (growToCFile 0) c')))
      else Inr (l, c))"
  by pat_completeness auto
termination
  by (relation "measure (\<lambda>(propAlloc, attempt_i, l, c). 2 - attempt_i)") auto

definition insertInCache ::
  "(nat \<Rightarrow> bool) \<Rightarrow> CacheEntryLocker \<Rightarrow> Cache \<Rightarrow> error + (CacheEntryLocker \<times> Cache)" where
  "insertInCache propAlloc l c = insertInCache_loop propAlloc 0 l c"

subsection \<open>Dropping a locker, removing an entry\<close>

text \<open>
  \<open>CacheEntryLocker::~CacheEntryLocker\<close>: nothing is released when the entry is cached;
  when it must be computed, the entry is looked up under the write lock of the bucket and
  deallocated. An exception wipes the cache.
\<close>

definition CacheEntryLocker_destroy :: "CacheEntryLocker \<Rightarrow> Cache \<Rightarrow> error + Cache" where
  "CacheEntryLocker_destroy l c =
     (if status_locker l = eCacheEntryStatusCached then Inr c
      else if status_locker l = eCacheEntryStatusMustCompute then
        (case bucket l of None \<Rightarrow> Inl InvalidPointer
         | Some bi \<Rightarrow>
           (case BucketStateHandler_enter bi c of
              Inl CorruptedCacheException \<Rightarrow> Inr (recoverFromInconsistentState c)
            | Inl InvalidPointer \<Rightarrow> Inl InvalidPointer
            | Inr c1 \<Rightarrow>
              (case tryCacheLookupImpl (buckets c1 bi) (hash_locker l) of
                 None \<Rightarrow> Inr (BucketStateHandler_exit bi c1)
               | Some a \<Rightarrow>
                 (case deallocateCacheEntryImpl bi (hash_locker l) a c1 of
                    Inl CorruptedCacheException \<Rightarrow> Inr (recoverFromInconsistentState c)
                  | Inl InvalidPointer \<Rightarrow> Inl InvalidPointer
                  | Inr c2 \<Rightarrow> Inr (BucketStateHandler_exit bi c2)))))
      else Inr c)"

text \<open>\<open>Cache::removeEntry\<close>; a null entry is \<open>None\<close>.\<close>

definition removeEntry :: "CacheEntryBase option \<Rightarrow> Cache \<Rightarrow> error + Cache" where
  "removeEntry entry c =
     (case entry of None \<Rightarrow> Inr c
      | Some ent \<Rightarrow>
        let h = getHashKey ent; bucketIndex = getBucketCacheBucketIndex h in
        (case BucketStateHandler_enter bucketIndex c of
           Inl CorruptedCacheException \<Rightarrow> Inr (recoverFromInconsistentState c)
         | Inl InvalidPointer \<Rightarrow> Inl InvalidPointer
         | Inr c1 \<Rightarrow>
           (case tryCacheLookupImpl (buckets c1 bucketIndex) h of
              None \<Rightarrow> Inr (BucketStateHandler_exit bucketIndex c1)
            | Some a \<Rightarrow>
              (case deallocateCacheEntryImpl bucketIndex h a c1 of
                 Inl CorruptedCacheException \<Rightarrow> Inr (recoverFromInconsistentState c)
               | Inl InvalidPointer \<Rightarrow> Inl InvalidPointer
               | Inr c2 \<Rightarrow> Inr (BucketStateHandler_exit bucketIndex c2)))))"

definition hasCacheEntryForHash :: "U64 \<Rightarrow> Cache \<Rightarrow> bool" where
  "hasCacheEntryForHash h c =
     (tryCacheLookupImpl (buckets c (getBucketCacheBucketIndex h)) h \<noteq> None)"

subsection \<open>Eviction\<close>

definition getCurrentSize :: "Cache \<Rightarrow> U64" where
  "getCurrentSize c =
     sum_list (map (\<lambda>i. size_bucket (buckets c i)) [0 ..< NATRON_CACHE_BUCKETS_COUNT])"

text \<open>
  The body of the loop over the buckets in \<open>evictLRUEntries\<close>. The first component of
  the result tells whether the end of the body was reached, where
  \<open>foundBucketThatCanEvict\<close> is set; the second is \<open>curSize\<close>.
\<close>

definition evictBucket :: "nat \<Rightarrow> U64 \<Rightarrow> Cache \<Rightarrow> error + (bool \<times> U64 \<times> Cache)" where
  "evictBucket bucket_i curSize c =
     (case BucketStateHandler_enter bucket_i c of Inl err \<Rightarrow> Inl err
      | Inr c1 \<Rightarrow>
        let b = buckets c1 bucket_i in
        (case (case lruListFront b of None \<Rightarrow> Some 0
               | Some f \<Rightarrow> (case segment b f of None \<Rightarrow> None
                            | Some fe \<Rightarrow> Some (hash (lruNode fe)))) of
           None \<Rightarrow> Inl InvalidPointer
         | Some h \<Rightarrow>
           if h = 0 then Inr (False, curSize, BucketStateHandler_exit bucket_i c1)
           else (case tryCacheLookupImpl b h of
                   None \<Rightarrow> Inr (False, curSize, BucketStateHandler_exit bucket_i c1)
                 | Some a \<Rightarrow>
                   (case segment b a of None \<Rightarrow> Inl InvalidPointer
                    | Some e \<Rightarrow>
                      (case deallocateCacheEntryImpl bucket_i h a c1 of
                         Inl err \<Rightarrow> Inl err
                       | Inr c2 \<Rightarrow>
                         Inr (True,
                              curSize - size_entry e
                                - of_nat (length (tileIndices e)) * NATRON_TILE_SIZE_BYTES,
                              BucketStateHandler_exit bucket_i c2))))))"

fun evictRound :: "nat list \<Rightarrow> bool \<Rightarrow> U64 \<Rightarrow> Cache \<Rightarrow> error + (bool \<times> U64 \<times> Cache)" where
  "evictRound [] found curSize c = Inr (found, curSize, c)"
| "evictRound (bucket_i # rest) found curSize c =
     (case evictBucket bucket_i curSize c of
        Inl err \<Rightarrow> Inl err
      | Inr (evicted, curSize', c') \<Rightarrow> evictRound rest (found \<or> evicted) curSize' c')"

text \<open>The number of pairs in the maps of the 256 buckets; it bounds the eviction loop.\<close>

definition totalEntries :: "Cache \<Rightarrow> nat" where
  "totalEntries c =
     sum_list (map (\<lambda>i. length (entriesMap (buckets c i))) [0 ..< NATRON_CACHE_BUCKETS_COUNT])"

text \<open>
  The \<open>while (mustEvictEntries)\<close> loop. An exception in a bucket wipes the cache and
  returns from \<open>evictLRUEntries\<close>.
\<close>

function evictLoop :: "U64 \<Rightarrow> U64 \<Rightarrow> Cache \<Rightarrow> error + Cache" where
  "evictLoop maxSize curSize c =
     (if curSize > maxSize then
        (case evictRound [0 ..< NATRON_CACHE_BUCKETS_COUNT] False curSize c of
           Inl CorruptedCacheException \<Rightarrow> Inr (recoverFromInconsistentState c)
         | Inl InvalidPointer \<Rightarrow> Inl InvalidPointer
         | Inr (foundBucketThatCanEvict, curSize', c') \<Rightarrow>
             if \<not> foundBucketThatCanEvict then Inr c'
             else evictLoop maxSize curSize' c')
      else Inr c)"
  by pat_completeness auto

text \<open>\<open>Cache::evictLRUEntries\<close>.\<close>

definition evictLRUEntries :: "U64 \<Rightarrow> Cache \<Rightarrow> error + Cache" where
  "evictLRUEntries nBytesToFree c =
     (let maxSize = maximumSize c in
      if maxSize = 0 then Inr c
      else let maxSize' = (if nBytesToFree \<ge> maxSize then 0 else maxSize - nBytesToFree);
               curSize = getCurrentSize c
           in evictLoop maxSize' curSize c)"


text \<open>
  The LRU list of a bucket holds at most one entry: the front and back pointers are both
  null, or both are the offset of the same live header, whose node has null links and
  whose hash is not 0 and is paired with that offset in the map. The list is empty when
  both pointers are null. The source computes neither; they describe the states that
  eviction is run from and ends in.
\<close>

definition lruListHoldsAtMostOne :: "CacheBucket \<Rightarrow> bool" where
  "lruListHoldsAtMostOne b =
     (case lruListFront b of
        None \<Rightarrow> lruListBack b = None
      | Some a \<Rightarrow>
          lruListBack b = Some a
          \<and> (case segment b a of
                None \<Rightarrow> False
              | Some e \<Rightarrow> prev (lruNode e) = None \<and> next (lruNode e) = None
                          \<and> hash (lruNode e) \<noteq> 0
                          \<and> tryCacheLookupImpl b (hash (lruNode e)) = Some a))"

definition lruListEmpty :: "CacheBucket \<Rightarrow> bool" where
  "lruListEmpty b = (lruListFront b = None \<and> lruListBack b = None)"

subsection \<open>The size of a bucket recomputed from its entries\<close>

text \<open>
  \<open>billedBytes\<close> is what the header \<open>e\<close> has added to the size of its bucket:
  \<open>insertInternal\<close> adds the size of the entry when it makes the entry ready, and
  \<open>retrieveAndLockTiles\<close> adds \<open>NATRON_TILE_SIZE_BYTES\<close> for each tile. \<open>recomputedSize\<close>
  sums this over the map of the bucket, in words of 64 bits as the counter of the bucket.
  \<open>sizeOfReadyOrPendingEntries\<close> is the sum in which the size of every ready or pending
  entry counts. \<open>entriesDistinct\<close>: the hashes of the map are pairwise distinct, as the
  keys of a \<open>std::map\<close> are, and so are the offsets of the headers. The source computes
  none of these; they are what the counter of a bucket is compared with.
\<close>

definition billedBytes :: "MemorySegmentEntryHeader \<Rightarrow> U64" where
  "billedBytes e =
     (if status e = eEntryStatusReady then size_entry e else 0)
       + of_nat (length (tileIndices e)) * NATRON_TILE_SIZE_BYTES"

definition billedAt :: "ToCSegment \<Rightarrow> addr \<Rightarrow> U64" where
  "billedAt seg a = (case seg a of None \<Rightarrow> 0 | Some e \<Rightarrow> billedBytes e)"

definition recomputedSize :: "CacheBucket \<Rightarrow> U64" where
  "recomputedSize b = sum_list (map (\<lambda>p. billedAt (segment b) (snd p)) (entriesMap b))"

definition entriesDistinct :: "CacheBucket \<Rightarrow> bool" where
  "entriesDistinct b =
     (distinct (map fst (entriesMap b)) \<and> distinct (map snd (entriesMap b)))"

definition sizeOfReadyOrPendingEntries :: "CacheBucket \<Rightarrow> U64" where
  "sizeOfReadyOrPendingEntries b =
     sum_list (map (\<lambda>p. case segment b (snd p) of None \<Rightarrow> 0
                        | Some e \<Rightarrow>
                            (if status e = eEntryStatusReady \<or> status e = eEntryStatusPending
                             then size_entry e else 0)
                              + of_nat (length (tileIndices e)) * NATRON_TILE_SIZE_BYTES)
                 (entriesMap b))"

subsection \<open>Example states\<close>

text \<open>
  A payload with hash \<open>k\<close> and metadata size \<open>m\<close> whose serialization writes nothing but
  what the cache adds and whose deserialization succeeds, and a cache with empty buckets.
\<close>

definition payload :: "U64 \<Rightarrow> U64 \<Rightarrow> CacheEntryBase" where
  "payload k m = \<lparr>getHashKey = k, getMetadataSize = m, getHolderPluginID = ''plugin'',
                   allowMultipleFetchForThread = False,
                   toMemorySegment = (\<lambda>n props. Some props),
                   fromMemorySegment = (\<lambda>n w props. Returns eFromMemorySegmentRetCodeOk),
                   getHashKeyForced = (\<lambda>props. k)\<rparr>"

definition cache0 :: "U64 \<Rightarrow> Cache" where
  "cache0 maxSize = \<lparr>maximumSize = maxSize, buckets = (\<lambda>i. emptyBucket), tilesStorage = 0,
                      useTileStorage = False, persistent = True\<rparr>"

text \<open>
  A ready entry of 100 bytes for the hash 5 whose properties hold no hash, a cache with
  no size limit that has this entry in bucket 5, and a locker for the hash 5.
\<close>

definition readyEntryWithoutHash :: MemorySegmentEntryHeader where
  "readyEntryWithoutHash =
     newEntryHeader\<lparr>size_entry := 100, status := eEntryStatusReady,
       lruNode := \<lparr>prev = None, next = None, hash = 5\<rparr>\<rparr>"

definition cacheWithOneEntry :: Cache where
  "cacheWithOneEntry =
     (cache0 0)\<lparr>buckets := (\<lambda>i. emptyBucket)(5 :=
        emptyBucket\<lparr>lruListFront := Some 0, lruListBack := Some 0, size_bucket := 100,
          entriesMap := [(5, 0)], segment := [0 \<mapsto> readyEntryWithoutHash]\<rparr>)\<rparr>"

definition lockerOfHash5 :: CacheEntryLocker where
  "lockerOfHash5 = \<lparr>processLocalEntry = payload 5 100, hash_locker = 5, bucket = Some 5,
                     status_locker = eCacheEntryStatusMustCompute\<rparr>"

text \<open>\<open>Cache::get\<close> followed by \<open>insertInCache\<close> on the locker it returns.\<close>

definition getAndInsert :: "U64 \<Rightarrow> addr \<Rightarrow> CacheEntryBase \<Rightarrow> Cache \<Rightarrow> error + Cache" where
  "getAndInsert thread a entry c =
     (case Cache_get thread (\<lambda>n. Some a) entry c of
        Inl err \<Rightarrow> Inl err
      | Inr (l, c1) \<Rightarrow>
        (case insertInCache (\<lambda>n. True) l c1 of
           Inl err \<Rightarrow> Inl err
         | Inr (l2, c2) \<Rightarrow> Inr c2))"

text \<open>
  Bucket 5 after the entries with the hashes \<open>0x105\<close> and \<open>0x205\<close>, of 100 bytes each,
  were reserved and inserted in this order, and the cache that holds it; then the same
  after the eviction loop removed the first entry.
\<close>

definition twoEntriesBucket :: CacheBucket where
  "twoEntriesBucket =
     \<lparr>lruListFront = Some 0, lruListBack = Some 1, bucketState = eBucketStateOk,
      size_bucket = 200, entriesMap = [(0x105, 0), (0x205, 1)], freeTiles = [],
      segment = [0 \<mapsto> \<lparr>size_entry = 100, status = eEntryStatusReady, computeThreadMagic = 0,
                        lruNode = \<lparr>prev = None, next = Some 1, hash = 0x105\<rparr>,
                        tileIndices = [], pluginID = ''plugin'',
                        properties = [kNatronIPCPropertyHash \<mapsto> 0x105],
                        nonPersistentEntry = None\<rparr>,
                 1 \<mapsto> \<lparr>size_entry = 100, status = eEntryStatusReady, computeThreadMagic = 0,
                        lruNode = \<lparr>prev = Some 0, next = None, hash = 0x205\<rparr>,
                        tileIndices = [], pluginID = ''plugin'',
                        properties = [kNatronIPCPropertyHash \<mapsto> 0x205],
                        nonPersistentEntry = None\<rparr>],
      tocFileSize = NATRON_CACHE_BUCKET_TOC_FILE_GROW_N_BYTES\<rparr>"

definition cacheWithTwoEntries :: "U64 \<Rightarrow> Cache" where
  "cacheWithTwoEntries m =
     \<lparr>maximumSize = m, buckets = (\<lambda>i. emptyBucket)(5 := twoEntriesBucket), tilesStorage = 0,
      useTileStorage = False, persistent = True\<rparr>"

definition oneEntryLeftBucket :: CacheBucket where
  "oneEntryLeftBucket =
     \<lparr>lruListFront = None, lruListBack = Some 1, bucketState = eBucketStateOk,
      size_bucket = 100, entriesMap = [(0x205, 1)], freeTiles = [],
      segment = [1 \<mapsto> \<lparr>size_entry = 100, status = eEntryStatusReady, computeThreadMagic = 0,
                        lruNode = \<lparr>prev = None, next = None, hash = 0x205\<rparr>,
                        tileIndices = [], pluginID = ''plugin'',
                        properties = [kNatronIPCPropertyHash \<mapsto> 0x205],
                        nonPersistentEntry = None\<rparr>],
      tocFileSize = NATRON_CACHE_BUCKET_TOC_FILE_GROW_N_BYTES\<rparr>"

definition cacheAfterEviction :: "U64 \<Rightarrow> Cache" where
  "cacheAfterEviction m =
     \<lparr>maximumSize = m, buckets = (\<lambda>i. emptyBucket)(5 := oneEntryLeftBucket), tilesStorage = 0,
      useTileStorage = False, persistent = True\<rparr>"

text \<open>
  The cache after \<open>Cache::get\<close> by thread 1 for the hash \<open>0x105\<close> on the empty cache: the
  entry is reserved, and the locker must compute it.
\<close>

definition reservedEntry :: MemorySegmentEntryHeader where
  "reservedEntry = newEntryHeader\<lparr>size_entry := 100, status := eEntryStatusPending,
                     computeThreadMagic := 1, pluginID := ''plugin''\<rparr>"

definition reservedCache :: Cache where
  "reservedCache =
     (cache0 0)\<lparr>buckets := (\<lambda>i. emptyBucket)(5 :=
        emptyBucket\<lparr>entriesMap := [(0x105, 0)], segment := [0 \<mapsto> reservedEntry]\<rparr>)\<rparr>"

definition reservedLocker :: CacheEntryLocker where
  "reservedLocker = \<lparr>processLocalEntry = payload 0x105 100, hash_locker = 0x105,
                      bucket = Some 5, status_locker = eCacheEntryStatusMustCompute\<rparr>"

text \<open>
  A cache with tile storage after its first storage file was created, and the same cache
  once a ready entry of bucket 5 has taken the tiles 0 and 1 of that file from the free
  tiles of bucket 0.
\<close>

definition tileCache0 :: Cache where
  "tileCache0 = createTileStorage ((cache0 0)\<lparr>useTileStorage := True\<rparr>)"

definition cacheWithTiles :: Cache where
  "cacheWithTiles =
     tileCache0\<lparr>buckets := (buckets tileCache0)
        (0 := (buckets tileCache0 0)
                \<lparr>freeTiles := filter (\<lambda>t. t \<noteq> encodeTileIndex 0 0 \<and> t \<noteq> encodeTileIndex 1 0)
                                 (freeTiles (buckets tileCache0 0))\<rparr>,
         5 := (buckets tileCache0 5)
                \<lparr>lruListFront := Some 0, lruListBack := Some 0,
                 size_bucket := 100 + 2 * NATRON_TILE_SIZE_BYTES,
                 entriesMap := [(5, 0)],
                 segment := [0 \<mapsto> newEntryHeader
                   \<lparr>size_entry := 100, status := eEntryStatusReady,
                    lruNode := \<lparr>prev = None, next = None, hash = 5\<rparr>,
                    tileIndices := [encodeTileIndex 0 0, encodeTileIndex 1 0]\<rparr>]\<rparr>)\<rparr>"

text \<open>
  The cache with one ready entry of 100 bytes in bucket 5, with one storage file and the
  tile 7 of that file free in bucket 5.
\<close>

definition cacheWithFreeTile :: Cache where
  "cacheWithFreeTile =
     cacheWithOneEntry\<lparr>buckets := (buckets cacheWithOneEntry)
        (5 := (buckets cacheWithOneEntry 5)\<lparr>freeTiles := [encodeTileIndex 7 0]\<rparr>),
        tilesStorage := 1, useTileStorage := True\<rparr>"

text \<open>
  A cache with one tile storage file whose bucket 5 holds two ready entries of 100 bytes,
  \<open>0x105\<close> at offset 0 (front of the LRU list) and \<open>0x205\<close> at offset 1 (back), the
  second holding the tiles 0 and 1 of the file, taken from the free tiles of bucket 0.
  This is the bucket of a thread that reserved \<open>0x205\<close> and still holds its locker in
  the status \<open>MustCompute\<close> after another thread took the entry over and inserted it;
  \<open>lockerOfHash205\<close> is that locker.
\<close>

definition entryWithTiles :: MemorySegmentEntryHeader where
  "entryWithTiles =
     \<lparr>size_entry = 100, status = eEntryStatusReady, computeThreadMagic = 0,
      lruNode = \<lparr>prev = Some 0, next = None, hash = 0x205\<rparr>,
      tileIndices = [encodeTileIndex 0 0, encodeTileIndex 1 0], pluginID = ''plugin'',
      properties = [kNatronIPCPropertyHash \<mapsto> 0x205], nonPersistentEntry = None\<rparr>"

definition cacheWithTakenOverEntry :: Cache where
  "cacheWithTakenOverEntry =
     tileCache0\<lparr>buckets := (buckets tileCache0)
        (0 := (buckets tileCache0 0)
                \<lparr>freeTiles := filter (\<lambda>t. t \<noteq> encodeTileIndex 0 0 \<and> t \<noteq> encodeTileIndex 1 0)
                                 (freeTiles (buckets tileCache0 0))\<rparr>,
         5 := (buckets tileCache0 5)
                \<lparr>lruListFront := Some 0, lruListBack := Some 1,
                 size_bucket := 200 + 2 * NATRON_TILE_SIZE_BYTES,
                 entriesMap := [(0x105, 0), (0x205, 1)],
                 segment :=
                   [0 \<mapsto> \<lparr>size_entry = 100, status = eEntryStatusReady, computeThreadMagic = 0,
                            lruNode = \<lparr>prev = None, next = Some 1, hash = 0x105\<rparr>,
                            tileIndices = [], pluginID = ''plugin'',
                            properties = [kNatronIPCPropertyHash \<mapsto> 0x105],
                            nonPersistentEntry = None\<rparr>,
                    1 \<mapsto> entryWithTiles]\<rparr>)\<rparr>"

definition lockerOfHash205 :: CacheEntryLocker where
  "lockerOfHash205 = \<lparr>processLocalEntry = payload 0x205 100, hash_locker = 0x205,
                       bucket = Some 5, status_locker = eCacheEntryStatusMustCompute\<rparr>"

text \<open>
  The locker that \<open>Cache::get\<close> returns for the hash \<open>0x105\<close> to a thread that finds
  the entry pending.
\<close>

definition waitingLocker :: CacheEntryLocker where
  "waitingLocker = reservedLocker\<lparr>status_locker := eCacheEntryStatusComputationPending\<rparr>"

section \<open>Termination of the eviction loop\<close>

text \<open>
  Freeing tiles changes the free tile sets only; deallocating an entry erases its hash
  from the map of its bucket; a round of the eviction loop that evicts from some bucket
  leaves fewer pairs in the maps.
\<close>

lemma freeTile_only_freeTiles:
  "buckets (freeTile t c) j = (buckets c j)\<lparr>freeTiles := freeTiles (buckets (freeTile t c) j)\<rparr>"
  by (simp add: freeTile_def upd_bucket_def Let_def)

lemma fold_freeTile_only_freeTiles:
  "buckets (fold freeTile ts c) j = (buckets c j)\<lparr>freeTiles := freeTiles (buckets (fold freeTile ts c) j)\<rparr>"
proof (induction ts arbitrary: c)
  case Nil
  show ?case by simp
next
  case (Cons t ts)
  have "buckets (fold freeTile ts (freeTile t c)) j
        = (buckets (freeTile t c) j)\<lparr>freeTiles := freeTiles (buckets (fold freeTile ts (freeTile t c)) j)\<rparr>"
    by (rule Cons.IH)
  also have "\<dots> = (buckets c j)\<lparr>freeTiles := freeTiles (buckets (fold freeTile ts (freeTile t c)) j)\<rparr>"
    by (subst freeTile_only_freeTiles) simp
  finally show ?case by simp
qed

lemma fold_freeTile_entriesMap [simp]:
  "entriesMap (buckets (fold freeTile ts c) j) = entriesMap (buckets c j)"
  by (subst fold_freeTile_only_freeTiles) simp

lemma deallocate_entriesMap:
  assumes "deallocateCacheEntryImpl bi h a c = Inr c'"
  shows "entriesMap (buckets c' j) =
           (if j = bi then filter (\<lambda>p. fst p \<noteq> h) (entriesMap (buckets c bi))
            else entriesMap (buckets c j))"
  using assms
  by (auto simp: deallocateCacheEntryImpl_def Let_def upd_bucket_def
           split: option.splits if_splits)


lemma sum_list_upt_split:
  fixes f :: "nat \<Rightarrow> 'a::comm_monoid_add"
  assumes "i < n"
  shows "sum_list (map f [0..<n]) = f i + sum f ({0..<n} - {i})"
proof -
  have "sum_list (map f [0..<n]) = sum f {0..<n}"
    by (simp add: interv_sum_list_conv_sum_set_nat)
  also have "\<dots> = f i + sum f ({0..<n} - {i})"
    using assms by (intro sum.remove) auto
  finally show ?thesis .
qed

lemma sum_list_upt_change:
  fixes f g :: "nat \<Rightarrow> 'a::comm_monoid_add"
  assumes "i < n" and "\<And>j. j \<noteq> i \<Longrightarrow> f j = g j"
  shows "sum_list (map f [0..<n]) + g i = sum_list (map g [0..<n]) + f i"
proof -
  have "sum f ({0..<n} - {i}) = sum g ({0..<n} - {i})"
    by (rule sum.cong) (auto simp: assms(2))
  then show ?thesis
    by (simp add: sum_list_upt_split [OF assms(1)] add.commute add.left_commute)
qed

lemma BucketStateHandler_enter_entriesMap:
  "BucketStateHandler_enter i c = Inr c1 \<Longrightarrow> entriesMap (buckets c1 j) = entriesMap (buckets c j)"
  by (auto simp: BucketStateHandler_enter_def upd_bucket_def split: if_splits)

lemma BucketStateHandler_exit_entriesMap [simp]:
  "entriesMap (buckets (BucketStateHandler_exit i c) j) = entriesMap (buckets c j)"
  by (simp add: BucketStateHandler_exit_def upd_bucket_def)

lemma length_filter_map_of_less:
  "map_of xs h = Some a \<Longrightarrow> length (filter (\<lambda>p. fst p \<noteq> h) xs) < length xs"
proof -
  assume "map_of xs h = Some a"
  then have "(h, a) \<in> set xs" by (rule map_of_SomeD)
  then show ?thesis
    by (intro length_filter_less [where x = "(h, a)"]) auto
qed

lemma evictBucket_cases:
  assumes "evictBucket i cur c = Inr (ev, cur', c')"
  obtains (skip) c1 where "BucketStateHandler_enter i c = Inr c1" "\<not> ev" "cur' = cur"
      "c' = BucketStateHandler_exit i c1"
      "lruListFront (buckets c1 i) = None
       \<or> (\<exists>f fe. lruListFront (buckets c1 i) = Some f \<and> segment (buckets c1 i) f = Some fe
            \<and> (hash (lruNode fe) = 0
                \<or> tryCacheLookupImpl (buckets c1 i) (hash (lruNode fe)) = None))"
    | (evict) c1 f fe a e c2 where "BucketStateHandler_enter i c = Inr c1" "ev"
      "lruListFront (buckets c1 i) = Some f" "segment (buckets c1 i) f = Some fe"
      "hash (lruNode fe) \<noteq> 0"
      "tryCacheLookupImpl (buckets c1 i) (hash (lruNode fe)) = Some a"
      "segment (buckets c1 i) a = Some e"
      "deallocateCacheEntryImpl i (hash (lruNode fe)) a c1 = Inr c2"
      "cur' = cur - size_entry e - of_nat (length (tileIndices e)) * NATRON_TILE_SIZE_BYTES"
      "c' = BucketStateHandler_exit i c2"
  using assms
  by (auto simp: evictBucket_def Let_def split: sum.splits option.splits if_splits)

lemma evictBucket_entriesMap:
  assumes "evictBucket i cur c = Inr (ev, cur', c')"
  shows "(\<forall>j. j \<noteq> i \<longrightarrow> entriesMap (buckets c' j) = entriesMap (buckets c j))
       \<and> (if ev then length (entriesMap (buckets c' i)) < length (entriesMap (buckets c i))
          else entriesMap (buckets c' i) = entriesMap (buckets c i))"
  using assms
proof (cases rule: evictBucket_cases)
  case (skip c1)
  then show ?thesis by (simp add: BucketStateHandler_enter_entriesMap)
next
  case (evict c1 f fe a e c2)
  have m: "\<And>j. entriesMap (buckets c1 j) = entriesMap (buckets c j)"
    using evict(1) by (rule BucketStateHandler_enter_entriesMap)
  have d: "\<And>j. entriesMap (buckets c2 j) =
           (if j = i then filter (\<lambda>p. fst p \<noteq> hash (lruNode fe)) (entriesMap (buckets c i))
            else entriesMap (buckets c j))"
    using deallocate_entriesMap [OF evict(8)] by (simp add: m)
  have "map_of (entriesMap (buckets c i)) (hash (lruNode fe)) = Some a"
    using evict(6) by (simp add: tryCacheLookupImpl_def m)
  then have "length (filter (\<lambda>p. fst p \<noteq> hash (lruNode fe)) (entriesMap (buckets c i)))
             < length (entriesMap (buckets c i))"
    by (rule length_filter_map_of_less)
  then show ?thesis using evict(2,10) by (simp add: d)
qed

lemma evictBucket_totalEntries:
  assumes "evictBucket i cur c = Inr (ev, cur', c')" and "i < NATRON_CACHE_BUCKETS_COUNT"
  shows "if ev then totalEntries c' < totalEntries c else totalEntries c' = totalEntries c"
proof -
  let ?f = "\<lambda>j. length (entriesMap (buckets c j))"
  let ?g = "\<lambda>j. length (entriesMap (buckets c' j))"
  from evictBucket_entriesMap [OF assms(1)]
  have other: "\<And>j. j \<noteq> i \<Longrightarrow> ?f j = ?g j"
    and here: "if ev then ?g i < ?f i else ?g i = ?f i"
    by (auto split: if_splits)
  have "totalEntries c + ?g i = totalEntries c' + ?f i"
    unfolding totalEntries_def by (rule sum_list_upt_change [OF assms(2) other])
  with here show ?thesis by (auto split: if_splits)
qed

lemma evictRound_totalEntries:
  assumes "evictRound is found cur c = Inr (found', cur', c')"
    and "\<forall>i \<in> set is. i < NATRON_CACHE_BUCKETS_COUNT"
  shows "totalEntries c' \<le> totalEntries c
       \<and> (found' \<and> \<not> found \<longrightarrow> totalEntries c' < totalEntries c)"
  using assms
proof (induction "is" arbitrary: found cur c)
  case Nil
  then show ?case by simp
next
  case (Cons i rest)
  from Cons.prems(1) obtain ev cur1 c1 where
    step: "evictBucket i cur c = Inr (ev, cur1, c1)"
    and rest: "evictRound rest (found \<or> ev) cur1 c1 = Inr (found', cur', c')"
    by (auto split: sum.splits)
  from Cons.prems(2) have i: "i < NATRON_CACHE_BUCKETS_COUNT"
    and r: "\<forall>i \<in> set rest. i < NATRON_CACHE_BUCKETS_COUNT" by auto
  from evictBucket_totalEntries [OF step i]
  have s: "if ev then totalEntries c1 < totalEntries c else totalEntries c1 = totalEntries c" .
  from Cons.IH [OF rest r]
  have ih: "totalEntries c' \<le> totalEntries c1"
    "found' \<and> \<not> (found \<or> ev) \<longrightarrow> totalEntries c' < totalEntries c1" by auto
  show ?case using s ih by (auto split: if_splits)
qed

termination evictLoop
  apply (relation "measure (\<lambda>(maxSize, curSize, c). totalEntries c)")
   apply simp
  subgoal for maxSize curSize c x2 x1a x2a x1b x2b
    using evictRound_totalEntries [of "[0..<NATRON_CACHE_BUCKETS_COUNT]" False curSize c True x1b x2b]
    by auto
  done




declare evictLoop.simps [simp del]

section \<open>Evaluation\<close>

lemmas model_defs = getBucketCacheBucketIndex_def getBucketStorageIndex_def doubleOfSize_def
  NATRON_CACHE_BUCKETS_N_DIGITS_def NATRON_CACHE_BUCKETS_COUNT_def NATRON_NUM_TILES_PER_BUCKET_FILE_def
  upd_bucket_def set_prev_def set_next_def disconnectLinkedListNode_def insertLinkedListNode_def
  getTileIndex_def freeTile_def deallocateCacheEntryImpl_def tryCacheLookupImpl_def
  deserializeEntry_def readFromSharedMemoryEntryImpl_def lookupAndSetStatusInternal_def
  growToCFile_def emptyBucket_def BucketStateHandler_enter_def BucketStateHandler_exit_def
  maxAttempts_def newEntryHeader_def lookupAndCreate_def lookupAndSetStatus_def
  CacheEntryLocker_create_def Cache_get_def serializeCacheEntry_def insertInternal_def
  insertInCache_def CacheEntryLocker_destroy_def removeEntry_def hasCacheEntryForHash_def
  evictBucket_def payload_def cache0_def kNatronIPCPropertyHash_def
  recoverFromInconsistentState_def


lemma getBucketCacheBucketIndex_low_byte:
  "getBucketCacheBucketIndex k = unat (k AND 0xff)"
  by (simp add: getBucketCacheBucketIndex_def getBucketStorageIndex_def
        NATRON_CACHE_BUCKETS_N_DIGITS_def)

text \<open>
  From \<open>2^53 + 1\<close> bytes on, \<open>growToCFile\<close> rounds the value that the conversion to
  \<open>double\<close> gave: the file of an empty bucket grows by \<open>2^53\<close> bytes, not by the next
  multiple of the quantum above \<open>2^53 + 1\<close>.
\<close>

lemma bitLength_numeral:
  "bitLength (numeral (num.Bit0 n)) = Suc (bitLength (numeral n))"
  "bitLength (numeral (num.Bit1 n)) = Suc (bitLength (numeral n))"
  "bitLength (Suc 0) = 1" "bitLength 1 = 1"
  by (simp_all add: bitLength.simps [of "numeral (num.Bit0 n)"]
        bitLength.simps [of "numeral (num.Bit1 n)"] bitLength.simps [of "Suc 0"]
        bitLength.simps [of 0] bitLength.simps [of 1])

lemma growToCFile_rounds_through_double:
  "tocFileSize (growToCFile (2 ^ 53 + 1) emptyBucket)
     = NATRON_CACHE_BUCKET_TOC_FILE_GROW_N_BYTES + 2 ^ 53"
  by (simp add: growToCFile_def doubleOfSize_def emptyBucket_def bitLength_numeral
        NATRON_CACHE_BUCKET_TOC_FILE_GROW_N_BYTES_def Let_def)

section \<open>What deallocation and the bucket state handler change\<close>

lemma fold_freeTile_size_bucket [simp]:
  "size_bucket (buckets (fold freeTile ts c) j) = size_bucket (buckets c j)"
  by (subst fold_freeTile_only_freeTiles) simp

lemma fold_freeTile_segment [simp]:
  "segment (buckets (fold freeTile ts c) j) = segment (buckets c j)"
  by (subst fold_freeTile_only_freeTiles) simp

lemma fold_freeTile_lruListFront [simp]:
  "lruListFront (buckets (fold freeTile ts c) j) = lruListFront (buckets c j)"
  by (subst fold_freeTile_only_freeTiles) simp

lemma fold_freeTile_lruListBack [simp]:
  "lruListBack (buckets (fold freeTile ts c) j) = lruListBack (buckets c j)"
  by (subst fold_freeTile_only_freeTiles) simp

lemma fold_freeTile_bucketState [simp]:
  "bucketState (buckets (fold freeTile ts c) j) = bucketState (buckets c j)"
  by (subst fold_freeTile_only_freeTiles) simp

lemma deallocate_size_bucket:
  assumes "deallocateCacheEntryImpl bi h a c = Inr c'"
    and "segment (buckets c bi) a = Some e"
  shows "size_bucket (buckets c' j) =
           (if j = bi
            then size_bucket (buckets c bi) - size_entry e
                   - of_nat (length (tileIndices e)) * NATRON_TILE_SIZE_BYTES
            else size_bucket (buckets c j))"
  using assms
  by (auto simp: deallocateCacheEntryImpl_def Let_def upd_bucket_def
           split: option.splits if_splits)


lemma bucketState_update_same:
  "bucketState b = v \<Longrightarrow> b\<lparr>bucketState := v\<rparr> = b"
  by (cases b) simp

lemma exit_enter_id:
  "BucketStateHandler_enter i c = Inr c1 \<Longrightarrow> BucketStateHandler_exit i c1 = c"
  by (auto simp: BucketStateHandler_enter_def BucketStateHandler_exit_def upd_bucket_def
        bucketState_update_same split: if_splits)

lemma getCurrentSize_exit [simp]:
  "getCurrentSize (BucketStateHandler_exit i c) = getCurrentSize c"
proof -
  have "(\<lambda>j. size_bucket (buckets (BucketStateHandler_exit i c) j))
        = (\<lambda>j. size_bucket (buckets c j))"
    by (auto simp: BucketStateHandler_exit_def upd_bucket_def)
  then show ?thesis by (simp add: getCurrentSize_def)
qed



lemma fold_upd_bucket_distinct:
  "distinct is \<Longrightarrow>
     buckets (fold (\<lambda>i. upd_bucket i (F i)) is c) j
       = (if j \<in> set is then F j (buckets c j) else buckets c j)"
proof (induction "is" arbitrary: c)
  case Nil
  show ?case by simp
next
  case (Cons i rest)
  then have "distinct rest" and "i \<notin> set rest" by auto
  with Cons.IH [of "upd_bucket i (F i) c"] show ?case
    by (auto simp: upd_bucket_def)
qed

lemma createTileStorage_buckets:
  "buckets (createTileStorage c) j =
     (if useTileStorage c \<and> j < NATRON_CACHE_BUCKETS_COUNT
      then (buckets c j)\<lparr>freeTiles :=
             fold insort_insert (newTilesOfBucket (tilesStorage c) j) (freeTiles (buckets c j))\<rparr>
      else buckets c j)"
  by (simp add: createTileStorage_def Let_def fold_upd_bucket_distinct)








lemma freeTile_freeTiles:
  "set (freeTiles (buckets (freeTile t c) j))
     = (if tileOwnerOnFree t = j then insert t (set (freeTiles (buckets c j)))
        else set (freeTiles (buckets c j)))"
  by (simp add: freeTile_def tileOwnerOnFree_def upd_bucket_def Let_def set_insort_insert)

lemma fold_freeTile_freeTiles:
  "set (freeTiles (buckets (fold freeTile ts c) j))
     = set (freeTiles (buckets c j)) \<union> {t \<in> set ts. tileOwnerOnFree t = j}"
  by (induction ts arbitrary: c) (auto simp: freeTile_freeTiles)

lemma deallocate_freeTiles:
  assumes "deallocateCacheEntryImpl bi h a c = Inr c'"
    and "segment (buckets c bi) a = Some e"
  shows "set (freeTiles (buckets c' j))
           = set (freeTiles (buckets c j)) \<union> {t \<in> set (tileIndices e). tileOwnerOnFree t = j}"
proof (cases "tileIndices e = []")
  case True
  with assms show ?thesis
    by (auto simp: deallocateCacheEntryImpl_def Let_def upd_bucket_def
             split: option.splits if_splits)
next
  case False
  let ?c1 = "upd_bucket bi (\<lambda>b. b\<lparr>size_bucket := size_bucket b
               - of_nat (length (tileIndices e)) * NATRON_TILE_SIZE_BYTES\<rparr>)
              (upd_bucket bi (\<lambda>b. b\<lparr>size_bucket := size_bucket b - size_entry e\<rparr>) c)"
  have "freeTiles (buckets c' j) = freeTiles (buckets (fold freeTile (tileIndices e) ?c1) j)"
    using assms False
    by (auto simp: deallocateCacheEntryImpl_def Let_def upd_bucket_def
             split: option.splits if_splits)
  moreover have "freeTiles (buckets ?c1 j) = freeTiles (buckets c j)"
    by (simp add: upd_bucket_def)
  ultimately show ?thesis by (simp add: fold_freeTile_freeTiles)
qed


lemma disconnect_neighbours:
  assumes "disconnectLinkedListNode a seg = Some seg'" and "seg a = Some e"
    and "prev (lruNode e) \<noteq> Some a" and "next (lruNode e) \<noteq> Some a"
  shows "seg' a \<noteq> None"
    and "\<And>p pe. prev (lruNode e) = Some p \<Longrightarrow> seg' p = Some pe
           \<Longrightarrow> next (lruNode pe) = next (lruNode e)"
    and "\<And>n ne. next (lruNode e) = Some n \<Longrightarrow> seg' n = Some ne
           \<Longrightarrow> prev (lruNode ne) = None"
  using assms
  by (auto simp: disconnectLinkedListNode_def set_prev_def set_next_def
           split: option.splits if_splits)

lemma disconnect_returns:
  assumes "seg a = Some e"
    and "\<And>p. prev (lruNode e) = Some p \<Longrightarrow> seg p \<noteq> None"
    and "\<And>n. next (lruNode e) = Some n \<Longrightarrow> seg n \<noteq> None"
  shows "\<exists>seg'. disconnectLinkedListNode a seg = Some seg'"
  using assms
  by (auto simp: disconnectLinkedListNode_def set_prev_def set_next_def
           split: option.splits if_splits)


lemma lruNode_cleared_tiles [simp]:
  "lruNode (if P then e\<lparr>tileIndices := []\<rparr> else e) = lruNode e"
  by simp

lemma deallocate_pointers:
  assumes "deallocateCacheEntryImpl bi h a c = Inr c'" and "segment (buckets c bi) a = Some e"
  shows "lruListBack (buckets c' bi)
           = (if lruListBack (buckets c bi) = Some a then prev (lruNode e)
              else lruListBack (buckets c bi))"
    and "lruListFront (buckets c' bi)
           = (if lruListFront (buckets c bi) = Some a then prev (lruNode e)
              else lruListFront (buckets c bi))"
    and "bucketState (buckets c' bi) = bucketState (buckets c bi)"
  using assms
  by (auto simp: deallocateCacheEntryImpl_def Let_def upd_bucket_def
           split: option.splits if_splits)

lemma deallocate_segment:
  assumes "deallocateCacheEntryImpl bi h a c = Inr c'" and "segment (buckets c bi) a = Some e"
  shows "\<exists>seg'. disconnectLinkedListNode a
                 ((segment (buckets c bi))
                    (a \<mapsto> (if tileIndices e \<noteq> [] then e\<lparr>tileIndices := []\<rparr> else e)))
               = Some seg'
             \<and> segment (buckets c' bi) = seg'(a := None)"
proof (cases "tileIndices e = []")
  case True
  have triv: "(segment (buckets c bi))(a \<mapsto> e) = segment (buckets c bi)"
    using assms(2) by (rule map_upd_triv)
  from assms True show ?thesis
    by (simp add: triv)
       (auto simp: deallocateCacheEntryImpl_def Let_def upd_bucket_def
             split: option.splits if_splits)
next
  case False
  from assms False show ?thesis
    by (auto simp: deallocateCacheEntryImpl_def Let_def upd_bucket_def
             split: option.splits if_splits)
qed

lemma deallocate_returns:
  assumes "segment (buckets c bi) a = Some e"
    and "\<And>p. prev (lruNode e) = Some p \<Longrightarrow> segment (buckets c bi) p \<noteq> None"
    and "\<And>n. next (lruNode e) = Some n \<Longrightarrow> segment (buckets c bi) n \<noteq> None"
  shows "\<exists>c'. deallocateCacheEntryImpl bi h a c = Inr c'"
proof -
  let ?e0 = "if tileIndices e \<noteq> [] then e\<lparr>tileIndices := []\<rparr> else e"
  let ?seg = "(segment (buckets c bi))(a \<mapsto> ?e0)"
  have "\<exists>seg'. disconnectLinkedListNode a ?seg = Some seg'"
  proof (rule disconnect_returns [where e = ?e0])
    show "?seg a = Some ?e0" by simp
  next
    fix p assume "prev (lruNode ?e0) = Some p"
    then show "?seg p \<noteq> None" using assms(2) [of p] by simp
  next
    fix n assume "next (lruNode ?e0) = Some n"
    then show "?seg n \<noteq> None" using assms(3) [of n] by simp
  qed
  then obtain seg' where d: "disconnectLinkedListNode a ?seg = Some seg'" by blast
  have triv: "(segment (buckets c bi))(a \<mapsto> e) = segment (buckets c bi)"
    using assms(1) by (rule map_upd_triv)
  show ?thesis
  proof (cases "tileIndices e = []")
    case True
    with d assms(1) show ?thesis
      by (simp add: deallocateCacheEntryImpl_def Let_def upd_bucket_def triv)
  next
    case False
    with d assms(1) show ?thesis
      by (simp add: deallocateCacheEntryImpl_def Let_def upd_bucket_def)
  qed
qed


lemma reserved_reachable:
  "Cache_get 1 (\<lambda>n. Some 0) (payload 0x105 100) (cache0 0) = Inr (reservedLocker, reservedCache)"
  by (simp add: reservedLocker_def reservedCache_def reservedEntry_def model_defs Let_def)

lemma map_of_filter_fst [simp]: "map_of (filter (\<lambda>p. fst p \<noteq> h) xs) h = None"
  by (induction xs) auto

lemma deallocate_released:
  assumes d: "deallocateCacheEntryImpl bi h a c = Inr c'"
    and e: "segment (buckets c bi) a = Some e"
    and v: "nodeLinksValid (segment (buckets c bi)) a e"
  shows "tryCacheLookupImpl (buckets c' bi) h = None"
    and "segment (buckets c' bi) a = None"
    and "\<forall>t \<in> set (tileIndices e). t \<in> set (freeTiles (buckets c' (tileOwnerOnFree t)))"
    and "lruListFront (buckets c' bi) \<noteq> Some a"
    and "lruListBack (buckets c' bi) \<noteq> Some a"
    and "\<forall>p pe. prev (lruNode e) = Some p \<longrightarrow> segment (buckets c' bi) p = Some pe
           \<longrightarrow> next (lruNode pe) \<noteq> Some a"
    and "\<forall>n ne. next (lruNode e) = Some n \<longrightarrow> segment (buckets c' bi) n = Some ne
           \<longrightarrow> prev (lruNode ne) \<noteq> Some a"
    and "bucketState (buckets c' bi) = bucketState (buckets c bi)"
proof -
  let ?e0 = "if tileIndices e \<noteq> [] then e\<lparr>tileIndices := []\<rparr> else e"
  let ?seg = "(segment (buckets c bi))(a \<mapsto> ?e0)"
  from v have pa: "prev (lruNode e) \<noteq> Some a" and na: "next (lruNode e) \<noteq> Some a"
    by (auto simp: nodeLinksValid_def split: option.splits)
  from deallocate_segment [OF d e] obtain seg' where
    dis: "disconnectLinkedListNode a ?seg = Some seg'"
    and seg: "segment (buckets c' bi) = seg'(a := None)" by blast
  have e0: "?seg a = Some ?e0" by simp
  show "tryCacheLookupImpl (buckets c' bi) h = None"
    by (simp add: tryCacheLookupImpl_def deallocate_entriesMap [OF d])
  show "segment (buckets c' bi) a = None" by (simp add: seg)
  show "\<forall>t \<in> set (tileIndices e). t \<in> set (freeTiles (buckets c' (tileOwnerOnFree t)))"
    by (simp add: deallocate_freeTiles [OF d e])
  show "lruListFront (buckets c' bi) \<noteq> Some a"
    using pa by (simp add: deallocate_pointers(2) [OF d e])
  show "lruListBack (buckets c' bi) \<noteq> Some a"
    using pa by (simp add: deallocate_pointers(1) [OF d e])
  show "bucketState (buckets c' bi) = bucketState (buckets c bi)"
    by (rule deallocate_pointers(3) [OF d e])
  show "\<forall>p pe. prev (lruNode e) = Some p \<longrightarrow> segment (buckets c' bi) p = Some pe
           \<longrightarrow> next (lruNode pe) \<noteq> Some a"
  proof (intro allI impI)
    fix p pe assume p: "prev (lruNode e) = Some p" and s: "segment (buckets c' bi) p = Some pe"
    from s have "seg' p = Some pe" by (auto simp: seg split: if_splits)
    from disconnect_neighbours(2) [OF dis e0 _ _ _ this] p pa na
    show "next (lruNode pe) \<noteq> Some a" by simp
  qed
  show "\<forall>n ne. next (lruNode e) = Some n \<longrightarrow> segment (buckets c' bi) n = Some ne
           \<longrightarrow> prev (lruNode ne) \<noteq> Some a"
  proof (intro allI impI)
    fix n ne assume n: "next (lruNode e) = Some n" and s: "segment (buckets c' bi) n = Some ne"
    from s have "seg' n = Some ne" by (auto simp: seg split: if_splits)
    from disconnect_neighbours(3) [OF dis e0 _ _ _ this] n pa na
    show "prev (lruNode ne) \<noteq> Some a" by simp
  qed
qed


lemma enter_fields:
  assumes "BucketStateHandler_enter bi c = Inr c1"
  shows "segment (buckets c1 j) = segment (buckets c j)"
    and "entriesMap (buckets c1 j) = entriesMap (buckets c j)"
    and "freeTiles (buckets c1 j) = freeTiles (buckets c j)"
    and "lruListFront (buckets c1 j) = lruListFront (buckets c j)"
    and "lruListBack (buckets c1 j) = lruListBack (buckets c j)"
  using assms
  by (auto simp: BucketStateHandler_enter_def upd_bucket_def split: if_splits)

lemma exit_fields [simp]:
  "segment (buckets (BucketStateHandler_exit bi c) j) = segment (buckets c j)"
  "freeTiles (buckets (BucketStateHandler_exit bi c) j) = freeTiles (buckets c j)"
  "lruListFront (buckets (BucketStateHandler_exit bi c) j) = lruListFront (buckets c j)"
  "lruListBack (buckets (BucketStateHandler_exit bi c) j) = lruListBack (buckets c j)"
  "tryCacheLookupImpl (buckets (BucketStateHandler_exit bi c) j) h = tryCacheLookupImpl (buckets c j) h"
  "bucketState (buckets (BucketStateHandler_exit bi c) bi) = eBucketStateOk"
  by (simp_all add: BucketStateHandler_exit_def upd_bucket_def tryCacheLookupImpl_def)

lemma fold_freeTile_frame:
  "segment (buckets (fold freeTile ts c) j) = segment (buckets c j)"
  "lruListFront (buckets (fold freeTile ts c) j) = lruListFront (buckets c j)"
  "lruListBack (buckets (fold freeTile ts c) j) = lruListBack (buckets c j)"
  "bucketState (buckets (fold freeTile ts c) j) = bucketState (buckets c j)"
  "tocFileSize (buckets (fold freeTile ts c) j) = tocFileSize (buckets c j)"
  by (subst fold_freeTile_only_freeTiles, simp)+


lemma deallocate_other_buckets:
  assumes "deallocateCacheEntryImpl bi h a c = Inr c'" and "j \<noteq> bi"
  shows "segment (buckets c' j) = segment (buckets c j)"
    and "lruListFront (buckets c' j) = lruListFront (buckets c j)"
    and "lruListBack (buckets c' j) = lruListBack (buckets c j)"
    and "bucketState (buckets c' j) = bucketState (buckets c j)"
    and "tocFileSize (buckets c' j) = tocFileSize (buckets c j)"
  using assms
  by (auto simp: deallocateCacheEntryImpl_def Let_def upd_bucket_def fold_freeTile_frame
           split: option.splits if_splits)

section \<open>C1: the bucket of a hash\<close>

text \<open>
  C1. The claim is that \<open>Cache::get\<close>, \<open>hasCacheEntryForHash\<close> and \<open>removeEntry\<close>
  address the bucket whose index is the top 8 bits of the hash. The three operations take
  the bucket from \<open>getBucketCacheBucketIndex\<close>, which instantiates
  \<open>getBucketStorageIndex\<close> at level 7 and so returns the low 8 bits. For the hash
  \<open>0x0100000000000000\<close> the top 8 bits are 1, while \<open>get\<close> reserves the entry in bucket
  0, \<open>hasCacheEntryForHash\<close> finds it there, bucket 1 stays empty, and \<open>removeEntry\<close>
  erases it from bucket 0.
\<close>

theorem C1_operations_use_low_byte:
  "unat (drop_bit 56 (0x0100000000000000 :: U64)) = 1
   \<and> getBucketCacheBucketIndex 0x0100000000000000 = 0
   \<and> (case Cache_get 1 (\<lambda>n. Some 0) (payload 0x0100000000000000 100) (cache0 0) of
        Inl err \<Rightarrow> False
      | Inr (l, c) \<Rightarrow>
          bucket l = Some 0
          \<and> entriesMap (buckets c 0) = [(0x0100000000000000, 0)]
          \<and> entriesMap (buckets c 1) = []
          \<and> hasCacheEntryForHash 0x0100000000000000 c
          \<and> (case removeEntry (Some (payload 0x0100000000000000 100)) c of
                Inl err \<Rightarrow> False
              | Inr c' \<Rightarrow> entriesMap (buckets c' 0) = []))"
  by (simp add: model_defs Let_def)

section \<open>C2: what the eviction loop reaches\<close>

lemma evictBucket_no_front:
  assumes "bucketState (buckets c i) = eBucketStateOk" and "lruListFront (buckets c i) = None"
  shows "evictBucket i cur c = Inr (False, cur, c)"
proof -
  have e: "BucketStateHandler_enter i c
           = Inr (upd_bucket i (\<lambda>b. b\<lparr>bucketState := eBucketStateInconsistent\<rparr>) c)"
    using assms(1) by (simp add: BucketStateHandler_enter_def)
  show ?thesis
    using assms(2) exit_enter_id [OF e]
    by (simp add: evictBucket_def e Let_def upd_bucket_def)
qed

lemma evictRound_no_front:
  "\<forall>i \<in> set is. bucketState (buckets c i) = eBucketStateOk \<and> lruListFront (buckets c i) = None
     \<Longrightarrow> evictRound is found cur c = Inr (found, cur, c)"
  by (induction "is" arbitrary: found) (simp_all add: evictBucket_no_front)

lemma evictRound_append:
  "evictRound (xs @ ys) found cur c =
     (case evictRound xs found cur c of
        Inl err \<Rightarrow> Inl err
      | Inr (found', cur', c') \<Rightarrow> evictRound ys found' cur' c')"
  by (induction xs arbitrary: found cur c) (auto split: sum.splits)

lemma evictRound_single:
  assumes "k < n"
    and "\<forall>i. i \<noteq> k \<longrightarrow> bucketState (buckets c i) = eBucketStateOk
                         \<and> lruListFront (buckets c i) = None"
    and "evictBucket k cur c = Inr (ev, cur', c')"
    and "\<forall>i. i \<noteq> k \<longrightarrow> bucketState (buckets c' i) = eBucketStateOk
                         \<and> lruListFront (buckets c' i) = None"
  shows "evictRound [0 ..< n] False cur c = Inr (ev, cur', c')"
proof -
  have split: "[0 ..< n] = [0 ..< k] @ k # [Suc k ..< n]"
    using assms(1) by (metis less_imp_le_nat upt_add_eq_append upt_conv_Cons zero_le
        le_add_diff_inverse)
  have a: "evictRound [0 ..< k] False cur c = Inr (False, cur, c)"
    by (rule evictRound_no_front) (use assms(2) in auto)
  have b: "evictRound [Suc k ..< n] ev cur' c' = Inr (ev, cur', c')"
    by (rule evictRound_no_front) (use assms(4) in auto)
  show ?thesis by (simp add: split evictRound_append a assms(3) b)
qed

lemma cacheWithTwoEntries_reachable:
  "(case getAndInsert 1 0 (payload 0x105 100) (cache0 m) of
      Inl err \<Rightarrow> Inl err
    | Inr c1 \<Rightarrow> getAndInsert 1 1 (payload 0x205 100) c1) = Inr (cacheWithTwoEntries m)"
  by (simp add: cacheWithTwoEntries_def model_defs getAndInsert_def Let_def twoEntriesBucket_def)

lemma cacheWithTwoEntries_getCurrentSize: "getCurrentSize (cacheWithTwoEntries m) = 200"
proof -
  have "(\<lambda>i. size_bucket (buckets (cacheWithTwoEntries m) i)) = (\<lambda>i. if i = 5 then 200 else 0)"
    by (auto simp: cacheWithTwoEntries_def twoEntriesBucket_def emptyBucket_def)
  then show ?thesis
    by (simp add: getCurrentSize_def NATRON_CACHE_BUCKETS_COUNT_def sum_list_upt_split [of 5])
qed

lemma cacheWithTwoEntries_evictBucket:
  "evictBucket 5 200 (cacheWithTwoEntries m) = Inr (True, 100, cacheAfterEviction m)"
  by (simp add: cacheWithTwoEntries_def twoEntriesBucket_def cacheAfterEviction_def
        oneEntryLeftBucket_def model_defs Let_def)


lemma cacheAfterEviction_getCurrentSize: "getCurrentSize (cacheAfterEviction m) = 100"
proof -
  have "(\<lambda>i. size_bucket (buckets (cacheAfterEviction m) i)) = (\<lambda>i. if i = 5 then 100 else 0)"
    by (auto simp: cacheAfterEviction_def oneEntryLeftBucket_def emptyBucket_def)
  then show ?thesis
    by (simp add: getCurrentSize_def NATRON_CACHE_BUCKETS_COUNT_def sum_list_upt_split [of 5])
qed

lemma cacheWithTwoEntries_evictLRUEntries:
  "evictLRUEntries 0 (cacheWithTwoEntries 50) = Inr (cacheAfterEviction 50)"
proof -
  have r1: "evictRound [0 ..< NATRON_CACHE_BUCKETS_COUNT] False 200 (cacheWithTwoEntries 50)
            = Inr (True, 100, cacheAfterEviction 50)"
    by (rule evictRound_single [OF _ _ cacheWithTwoEntries_evictBucket])
       (simp_all add: NATRON_CACHE_BUCKETS_COUNT_def cacheWithTwoEntries_def
          cacheAfterEviction_def emptyBucket_def)
  have r2: "evictRound [0 ..< NATRON_CACHE_BUCKETS_COUNT] False 100 (cacheAfterEviction 50)
            = Inr (False, 100, cacheAfterEviction 50)"
    by (rule evictRound_no_front)
       (simp add: cacheAfterEviction_def oneEntryLeftBucket_def emptyBucket_def)
  have l2: "evictLoop 50 100 (cacheAfterEviction 50) = Inr (cacheAfterEviction 50)"
    by (subst evictLoop.simps) (simp add: r2)
  have l1: "evictLoop 50 200 (cacheWithTwoEntries 50) = Inr (cacheAfterEviction 50)"
    by (subst evictLoop.simps) (simp add: r1 l2)
  have m: "maximumSize (cacheWithTwoEntries 50) = 50"
    by (simp add: cacheWithTwoEntries_def)
  show ?thesis
    by (simp add: evictLRUEntries_def m Let_def cacheWithTwoEntries_getCurrentSize l1)
qed



lemma lruListHoldsAtMostOne_emptyBucket [simp]:
  "lruListHoldsAtMostOne (emptyBucket\<lparr>freeTiles := ts\<rparr>)" "lruListHoldsAtMostOne emptyBucket"
  by (simp_all add: lruListHoldsAtMostOne_def emptyBucket_def)


lemma lruListEmpty_clear: "lruListEmpty (buckets (clear c) j)"
  by (simp add: clear_def createTileStorage_buckets lruListEmpty_def emptyBucket_def)













text \<open>
  With two entries in the LRU list of a bucket, evicting the front entry runs through
  the assignment that \<open>deallocateCacheEntryImpl\<close> makes to \<open>lruListFront\<close> (see C3):
  with a maximum of 50 bytes the loop evicts the entry \<open>0x105\<close>, finds no front entry in
  the next round and stops, the size being 100 and the entry \<open>0x205\<close> still at the back
  of the list and in the map. The statement above is about lists of at most one entry
  and says nothing of this path.
\<close>

lemma second_entry_left_after_eviction:
  "(case getAndInsert 1 0 (payload 0x105 100) (cache0 50) of
      Inl err \<Rightarrow> Inl err
    | Inr c1 \<Rightarrow> getAndInsert 1 1 (payload 0x205 100) c1) = Inr (cacheWithTwoEntries 50)
   \<and> \<not> lruListHoldsAtMostOne (buckets (cacheWithTwoEntries 50) 5)
   \<and> evictLRUEntries 0 (cacheWithTwoEntries 50) = Inr (cacheAfterEviction 50)
   \<and> getCurrentSize (cacheAfterEviction 50) = 100
   \<and> lruListFront (buckets (cacheAfterEviction 50) 5) = None
   \<and> lruListBack (buckets (cacheAfterEviction 50) 5) = Some 1
   \<and> entriesMap (buckets (cacheAfterEviction 50) 5) = [(0x205, 1)]"
  using cacheWithTwoEntries_reachable [of 50] cacheWithTwoEntries_evictLRUEntries
    cacheAfterEviction_getCurrentSize [of 50]
  by (simp add: cacheAfterEviction_def oneEntryLeftBucket_def cacheWithTwoEntries_def
        twoEntriesBucket_def lruListHoldsAtMostOne_def)

section \<open>C3: the shape of the LRU list\<close>

text \<open>
  C3. The claim is that inserting, touching and removing a node keep
  \<open>lru_front.prev == null\<close>, \<open>lru_back.next == null\<close> and the list acyclic, and that
  removing an endpoint moves \<open>lru_front\<close> or \<open>lru_back\<close> to the adjacent remaining node.
  The code does not: two entries are inserted in bucket 5, at offsets 0 (front) and 1
  (back). Removing the front entry sets \<open>lruListFront\<close> to the \<open>prev\<close> of the removed
  node, which is null, although the node at offset 1 remains. Touching the front entry
  (a lookup that finds it ready) links it behind the back node and leaves \<open>lruListFront\<close>
  on it, so that the predecessor of the front node is the node at offset 1.
\<close>

theorem C3_front_pointer_lost:
  "case getAndInsert 1 0 (payload 0x105 100) (cache0 0) of
     Inl err \<Rightarrow> False
   | Inr c1 \<Rightarrow>
     (case getAndInsert 1 1 (payload 0x205 100) c1 of
        Inl err \<Rightarrow> False
      | Inr c2 \<Rightarrow>
          lruListFront (buckets c2 5) = Some 0 \<and> lruListBack (buckets c2 5) = Some 1
          \<and> (case removeEntry (Some (payload 0x105 100)) c2 of
                Inl err \<Rightarrow> False
              | Inr c3 \<Rightarrow>
                  entriesMap (buckets c3 5) = [(0x205, 1)]
                  \<and> lruListFront (buckets c3 5) = None
                  \<and> lruListBack (buckets c3 5) = Some 1)
          \<and> (case Cache_get 1 (\<lambda>n. None) (payload 0x105 100) c2 of
                Inl err \<Rightarrow> False
              | Inr (l, c3) \<Rightarrow>
                  status_locker l = eCacheEntryStatusCached
                  \<and> lruListFront (buckets c3 5) = Some 0
                  \<and> map_option (prev \<circ> lruNode) (segment (buckets c3 5) 0) = Some (Some 1)))"
  by (simp add: model_defs getAndInsert_def Let_def)

section \<open>C4: the size recorded for a bucket\<close>

text \<open>
  The links of the LRU list, the state of the bucket and the properties of an entry do
  not count in \<open>recomputedSize\<close>; reserving, inserting, allocating tiles and
  deallocating change it by what they add to or subtract from the size of the bucket.
\<close>

lemma billedBytes_lruNode [simp]: "billedBytes (e\<lparr>lruNode := n\<rparr>) = billedBytes e"
  by (simp add: billedBytes_def)

lemma set_prev_same_entry:
  "set_prev b p seg = Some seg' \<Longrightarrow>
     map_option (\<lambda>y. y\<lparr>lruNode := nd\<rparr>) (seg' x) = map_option (\<lambda>y. y\<lparr>lruNode := nd\<rparr>) (seg x)"
  by (cases "x = b") (auto simp: set_prev_def split: option.splits)

lemma set_next_same_entry:
  "set_next b n seg = Some seg' \<Longrightarrow>
     map_option (\<lambda>y. y\<lparr>lruNode := nd\<rparr>) (seg' x) = map_option (\<lambda>y. y\<lparr>lruNode := nd\<rparr>) (seg x)"
  by (cases "x = b") (auto simp: set_next_def split: option.splits)

lemma disconnect_same_entry:
  assumes "disconnectLinkedListNode a seg = Some seg'"
  shows "map_option (\<lambda>y. y\<lparr>lruNode := nd\<rparr>) (seg' x)
         = map_option (\<lambda>y. y\<lparr>lruNode := nd\<rparr>) (seg x)"
proof -
  let ?E = "\<lambda>s. map_option (\<lambda>y. y\<lparr>lruNode := nd\<rparr>) (s x)"
  note d = disconnectLinkedListNode_def
  from assms obtain e where e: "seg a = Some e"
    by (cases "seg a") (simp_all add: d)
  let ?s1 = "case prev (lruNode e) of Some p \<Rightarrow> set_next p (next (lruNode e)) seg
             | None \<Rightarrow> Some seg"
  from assms e obtain seg1 where s1: "?s1 = Some seg1"
    by (cases ?s1) (simp_all add: d)
  from assms e s1 obtain seg2 where s2: "set_prev a None seg1 = Some seg2"
    by (cases "set_prev a None seg1") (simp_all add: d)
  from assms e s1 s2 obtain e2 where e2: "seg2 a = Some e2"
    by (cases "seg2 a") (simp_all add: d)
  let ?s3 = "case next (lruNode e2) of Some n \<Rightarrow> set_prev n (prev (lruNode e2)) seg2
             | None \<Rightarrow> Some seg2"
  from assms e s1 s2 e2 obtain seg3 where s3: "?s3 = Some seg3"
    by (cases ?s3) (simp_all add: d)
  from assms e s1 s2 e2 s3 have s4: "set_next a None seg3 = Some seg'"
    by (simp add: d)
  have "?E seg1 = ?E seg"
    using s1 by (cases "prev (lruNode e)") (auto dest: set_next_same_entry)
  moreover have "?E seg2 = ?E seg1"
    using s2 by (rule set_prev_same_entry)
  moreover have "?E seg3 = ?E seg2"
    using s3 by (cases "next (lruNode e2)") (auto dest: set_prev_same_entry)
  moreover have "?E seg' = ?E seg3"
    using s4 by (rule set_next_same_entry)
  ultimately show ?thesis by simp
qed

lemma insertLinkedListNode_same_entry:
  assumes "insertLinkedListNode node p n seg = Some seg'"
  shows "map_option (\<lambda>y. y\<lparr>lruNode := nd\<rparr>) (seg' x)
         = map_option (\<lambda>y. y\<lparr>lruNode := nd\<rparr>) (seg x)"
proof -
  let ?E = "\<lambda>s. map_option (\<lambda>y. y\<lparr>lruNode := nd\<rparr>) (s x)"
  from assms obtain seg1 seg2 seg3 where
    s1: "(case p of Some pa \<Rightarrow> set_next pa (Some node) seg | None \<Rightarrow> Some seg) = Some seg1"
    and s2: "set_prev node p seg1 = Some seg2"
    and s3: "(case n of Some na \<Rightarrow> set_prev na (Some node) seg2 | None \<Rightarrow> Some seg2) = Some seg3"
    and s4: "set_next node n seg3 = Some seg'"
    by (auto simp: insertLinkedListNode_def split: option.splits)
  have "?E seg1 = ?E seg"
    using s1 by (cases p) (auto dest: set_next_same_entry)
  moreover have "?E seg2 = ?E seg1"
    using s2 by (rule set_prev_same_entry)
  moreover have "?E seg3 = ?E seg2"
    using s3 by (cases n) (auto dest: set_prev_same_entry)
  moreover have "?E seg' = ?E seg3"
    using s4 by (rule set_next_same_entry)
  ultimately show ?thesis by simp
qed

lemma same_entry_billedAt:
  assumes "map_option (\<lambda>y. y\<lparr>lruNode := nd\<rparr>) (seg' x)
           = map_option (\<lambda>y. y\<lparr>lruNode := nd\<rparr>) (seg x)"
  shows "billedAt seg' x = billedAt seg x"
proof (cases "seg x")
  case None
  with assms show ?thesis by (simp add: billedAt_def)
next
  case (Some y)
  with assms obtain y' where y': "seg' x = Some y'" "y'\<lparr>lruNode := nd\<rparr> = y\<lparr>lruNode := nd\<rparr>"
    by auto
  have "billedBytes y' = billedBytes (y'\<lparr>lruNode := nd\<rparr>)" by simp
  also have "\<dots> = billedBytes y" by (simp add: y'(2))
  finally show ?thesis by (simp add: billedAt_def Some y'(1))
qed

lemma disconnect_billedAt:
  "disconnectLinkedListNode a seg = Some seg' \<Longrightarrow> billedAt seg' x = billedAt seg x"
  by (rule same_entry_billedAt [where nd = "\<lparr>prev = None, next = None, hash = 0\<rparr>"]) (rule disconnect_same_entry)

lemma insertLinkedListNode_billedAt:
  "insertLinkedListNode node p n seg = Some seg' \<Longrightarrow> billedAt seg' x = billedAt seg x"
  by (rule same_entry_billedAt [where nd = "\<lparr>prev = None, next = None, hash = 0\<rparr>"]) (rule insertLinkedListNode_same_entry)

lemma sum_list_billed_cong:
  "(\<And>p. p \<in> set xs \<Longrightarrow> f' (snd p) = f (snd p)) \<Longrightarrow>
     sum_list (map (\<lambda>p. f' (snd p)) xs) = (sum_list (map (\<lambda>p. f (snd p)) xs) :: U64)"
  by (induction xs) auto

lemma sum_list_billed_update:
  fixes f f' :: "addr \<Rightarrow> U64"
  assumes "distinct (map snd xs)" and "(h, a) \<in> set xs"
    and "\<And>x. x \<noteq> a \<Longrightarrow> f' x = f x"
  shows "sum_list (map (\<lambda>p. f' (snd p)) xs)
         = sum_list (map (\<lambda>p. f (snd p)) xs) - f a + f' a"
  using assms(1,2)
proof (induction xs)
  case Nil
  then show ?case by simp
next
  case (Cons p xs)
  show ?case
  proof (cases "p = (h, a)")
    case True
    with Cons.prems have "\<And>q. q \<in> set xs \<Longrightarrow> snd q \<noteq> a" by force
    then have "sum_list (map (\<lambda>p. f' (snd p)) xs) = sum_list (map (\<lambda>p. f (snd p)) xs)"
      by (intro sum_list_billed_cong assms(3))
    with True show ?thesis by simp
  next
    case False
    with Cons.prems have m: "(h, a) \<in> set xs" by simp
    then have "a \<in> snd ` set xs" by force
    with Cons.prems have "snd p \<noteq> a" by auto
    with m Cons.IH Cons.prems assms(3) [of "snd p"] show ?thesis by simp
  qed
qed

lemma sum_list_filter_key:
  fixes g :: "U64 \<times> addr \<Rightarrow> U64"
  assumes "distinct (map fst xs)" and "(h, a) \<in> set xs"
  shows "sum_list (map g (filter (\<lambda>p. fst p \<noteq> h) xs)) = sum_list (map g xs) - g (h, a)"
  using assms
proof (induction xs)
  case Nil
  then show ?case by simp
next
  case (Cons p xs)
  show ?case
  proof (cases "p = (h, a)")
    case True
    with Cons.prems have "\<And>q. q \<in> set xs \<Longrightarrow> fst q \<noteq> h" by force
    then have "filter (\<lambda>p. fst p \<noteq> h) xs = xs" by (simp add: filter_id_conv)
    with True show ?thesis by simp
  next
    case False
    with Cons.prems have m: "(h, a) \<in> set xs" by simp
    then have "h \<in> fst ` set xs" by force
    with Cons.prems have "fst p \<noteq> h" by auto
    with m Cons.IH Cons.prems show ?thesis by simp
  qed
qed

lemma deallocate_recomputedSize:
  assumes d: "deallocateCacheEntryImpl bi h a c = Inr c'"
    and e: "segment (buckets c bi) a = Some e"
    and look: "tryCacheLookupImpl (buckets c bi) h = Some a"
    and wf: "entriesDistinct (buckets c bi)"
  shows "recomputedSize (buckets c' bi) = recomputedSize (buckets c bi) - billedBytes e"
    and "entriesDistinct (buckets c' bi)"
proof -
  let ?xs = "entriesMap (buckets c bi)"
  let ?seg = "segment (buckets c bi)"
  let ?e0 = "if tileIndices e \<noteq> [] then e\<lparr>tileIndices := []\<rparr> else e"
  from look have mem: "(h, a) \<in> set ?xs"
    by (auto simp: tryCacheLookupImpl_def dest: map_of_SomeD)
  from wf have dk: "distinct (map fst ?xs)" and da: "distinct (map snd ?xs)"
    by (simp_all add: entriesDistinct_def)
  from deallocate_segment [OF d e] obtain seg' where
    dis: "disconnectLinkedListNode a (?seg(a \<mapsto> ?e0)) = Some seg'"
    and seg: "segment (buckets c' bi) = seg'(a := None)" by blast
  have em: "entriesMap (buckets c' bi) = filter (\<lambda>p. fst p \<noteq> h) ?xs"
    by (simp add: deallocate_entriesMap [OF d])
  have other: "snd p \<noteq> a" if "p \<in> set ?xs" "fst p \<noteq> h" for p
  proof
    assume "snd p = a"
    with that(1) mem da have "p = (h, a)"
      by (metis distinct_map inj_onD snd_conv)
    with that(2) show False by simp
  qed
  have "recomputedSize (buckets c' bi)
        = sum_list (map (\<lambda>p. billedAt (seg'(a := None)) (snd p)) (filter (\<lambda>p. fst p \<noteq> h) ?xs))"
    by (simp add: recomputedSize_def em seg)
  also have "\<dots> = sum_list (map (\<lambda>p. billedAt ?seg (snd p)) (filter (\<lambda>p. fst p \<noteq> h) ?xs))"
  proof (rule sum_list_billed_cong)
    fix p assume "p \<in> set (filter (\<lambda>p. fst p \<noteq> h) ?xs)"
    then have na: "snd p \<noteq> a" using other by simp
    then have "billedAt (seg'(a := None)) (snd p) = billedAt seg' (snd p)"
      by (simp add: billedAt_def)
    also have "\<dots> = billedAt (?seg(a \<mapsto> ?e0)) (snd p)"
      by (rule disconnect_billedAt [OF dis])
    also have "\<dots> = billedAt ?seg (snd p)"
      using na by (simp add: billedAt_def)
    finally show "billedAt (seg'(a := None)) (snd p) = billedAt ?seg (snd p)" .
  qed
  also have "\<dots> = sum_list (map (\<lambda>p. billedAt ?seg (snd p)) ?xs) - billedAt ?seg (snd (h, a))"
    by (rule sum_list_filter_key [OF dk mem])
  finally show "recomputedSize (buckets c' bi) = recomputedSize (buckets c bi) - billedBytes e"
    by (simp add: recomputedSize_def billedAt_def e)
  show "entriesDistinct (buckets c' bi)"
    using dk da by (simp add: entriesDistinct_def em distinct_map_filter)
qed

lemma recomputedSize_bucketState [simp]:
  "recomputedSize (b\<lparr>bucketState := s\<rparr>) = recomputedSize b"
  by (simp add: recomputedSize_def)

lemma entriesDistinct_bucketState [simp]:
  "entriesDistinct (b\<lparr>bucketState := s\<rparr>) = entriesDistinct b"
  by (simp add: entriesDistinct_def)

lemma serializeCacheEntry_billing:
  assumes "serializeCacheEntry propAlloc n ple h entry = (r, entry')"
  shows "size_entry entry' = size_entry entry" and "tileIndices entry' = tileIndices entry"
    and "status entry' = status entry"
  using assms by (auto simp: serializeCacheEntry_def split: option.splits if_splits)

lemma insertInternal_recomputedSize:
  assumes b: "bucket l = Some bi"
    and look: "tryCacheLookupImpl (buckets c bi) (hash_locker l) = Some a"
    and e: "segment (buckets c bi) a = Some e"
    and st: "status e = eEntryStatusPending"
    and m: "computeThreadMagic e \<noteq> 0"
    and wf: "entriesDistinct (buckets c bi)"
    and ins: "insertInternal propAlloc l c = Inr (eInsertRetCodeCreated, l', c')"
  shows "size_bucket (buckets c' bi) = size_bucket (buckets c bi) + size_entry e"
    and "recomputedSize (buckets c' bi) = recomputedSize (buckets c bi) + size_entry e"
    and "entriesDistinct (buckets c' bi)"
proof -
  let ?xs = "entriesMap (buckets c bi)"
  let ?seg = "segment (buckets c bi)"
  from ins b obtain c1 where c1: "BucketStateHandler_enter bi c = Inr c1"
    by (auto simp: insertInternal_def split: sum.splits)
  have look1: "tryCacheLookupImpl (buckets c1 bi) (hash_locker l) = Some a"
    using look by (simp add: tryCacheLookupImpl_def enter_fields(2) [OF c1])
  have e1: "segment (buckets c1 bi) a = Some e"
    using e by (simp add: enter_fields(1) [OF c1])
  have sz1: "size_bucket (buckets c1 bi) = size_bucket (buckets c bi)"
    using c1 by (auto simp: BucketStateHandler_enter_def upd_bucket_def split: if_splits)
  let ?ser = "if persistent c1
              then serializeCacheEntry propAlloc (tocFileSize (buckets c1 bi))
                     (processLocalEntry l) (hash_locker l) e
              else (eInsertRetCodeCreated, e)"
  obtain ret es where ser: "?ser = (ret, es)" by (cases ?ser)
  have es: "size_entry es = size_entry e" "tileIndices es = tileIndices e" "status es = status e"
    using ser by (auto dest: serializeCacheEntry_billing split: if_splits)
  have ret: "ret = eInsertRetCodeCreated"
    using ins b c1 look1 e1 m ser
    by (auto simp: insertInternal_def Let_def split: if_splits option.splits)
  let ?e2 = "es\<lparr>lruNode := \<lparr>prev = None, next = None, hash = hash_locker l\<rparr>\<rparr>"
  let ?b1 = "(buckets c1 bi)\<lparr>size_bucket := size_bucket (buckets c1 bi) + size_entry es,
               segment := (segment (buckets c1 bi))(a \<mapsto> ?e2)\<rparr>"
  from ins b c1 look1 e1 m ser ret obtain b2 e3 where
    b2: "(if lruListBack ?b1 = None
          then Some (?b1\<lparr>lruListFront := Some a, lruListBack := Some a\<rparr>)
          else (case insertLinkedListNode a (lruListBack ?b1) None (segment ?b1) of
                  None \<Rightarrow> None
                | Some seg \<Rightarrow> Some (?b1\<lparr>segment := seg, lruListBack := Some a\<rparr>))) = Some b2"
    and e3: "segment b2 a = Some e3"
    and c': "c' = BucketStateHandler_exit bi
               (c1\<lparr>buckets := (buckets c1)(bi :=
                  b2\<lparr>segment := (segment b2)(a \<mapsto>
                       e3\<lparr>computeThreadMagic := 0, status := eEntryStatusReady\<rparr>)\<rparr>)\<rparr>)"
    by (auto simp: insertInternal_def Let_def split: if_splits option.splits)
  let ?nd = "\<lparr>prev = None, next = None, hash = 0\<rparr>"
  have b2f: "size_bucket b2 = size_bucket (buckets c bi) + size_entry e"
    "entriesMap b2 = ?xs"
    and same: "\<And>x. map_option (\<lambda>y. y\<lparr>lruNode := ?nd\<rparr>) (segment b2 x)
                  = map_option (\<lambda>y. y\<lparr>lruNode := ?nd\<rparr>) ((?seg(a \<mapsto> ?e2)) x)"
  proof -
    show "size_bucket b2 = size_bucket (buckets c bi) + size_entry e"
      using b2 sz1 es by (auto split: if_splits option.splits)
    show "entriesMap b2 = ?xs"
      using b2 by (auto simp: enter_fields(2) [OF c1] split: if_splits option.splits)
    fix x
    show "map_option (\<lambda>y. y\<lparr>lruNode := ?nd\<rparr>) (segment b2 x)
          = map_option (\<lambda>y. y\<lparr>lruNode := ?nd\<rparr>) ((?seg(a \<mapsto> ?e2)) x)"
    proof (cases "lruListBack ?b1 = None")
      case True
      with b2 show ?thesis by (auto simp: enter_fields(1) [OF c1])
    next
      case False
      with b2 obtain seg where
        i: "insertLinkedListNode a (lruListBack ?b1) None (segment ?b1) = Some seg"
        and "b2 = ?b1\<lparr>segment := seg, lruListBack := Some a\<rparr>"
        by (auto split: option.splits)
      then show ?thesis
        using insertLinkedListNode_same_entry [OF i, of ?nd x]
        by (simp add: enter_fields(1) [OF c1])
    qed
  qed
  from same [of a] e3 have e3e: "e3\<lparr>lruNode := ?nd\<rparr> = es\<lparr>lruNode := ?nd\<rparr>" by simp
  have e3f: "size_entry e3 = size_entry e" "tileIndices e3 = tileIndices e"
    using arg_cong [OF e3e, of size_entry] arg_cong [OF e3e, of tileIndices] es by simp_all
  let ?segf = "(segment b2)(a \<mapsto> e3\<lparr>computeThreadMagic := 0, status := eEntryStatusReady\<rparr>)"
  have bf: "buckets c' bi = (b2\<lparr>segment := ?segf\<rparr>)\<lparr>bucketState := eBucketStateOk\<rparr>"
    by (simp add: c' BucketStateHandler_exit_def upd_bucket_def)
  show "size_bucket (buckets c' bi) = size_bucket (buckets c bi) + size_entry e"
    by (simp add: bf b2f)
  show "entriesDistinct (buckets c' bi)"
    using wf by (simp add: bf entriesDistinct_def b2f)
  from look have mem: "(hash_locker l, a) \<in> set ?xs"
    by (auto simp: tryCacheLookupImpl_def dest: map_of_SomeD)
  from wf have da: "distinct (map snd ?xs)" by (simp add: entriesDistinct_def)
  have oth: "billedAt ?segf x = billedAt ?seg x" if "x \<noteq> a" for x
  proof -
    have "billedAt ?segf x = billedAt (segment b2) x"
      using that by (simp add: billedAt_def)
    also have "\<dots> = billedAt (?seg(a \<mapsto> ?e2)) x"
      using same [of x] by (rule same_entry_billedAt)
    also have "\<dots> = billedAt ?seg x"
      using that by (simp add: billedAt_def)
    finally show ?thesis .
  qed
  have "recomputedSize (buckets c' bi) = sum_list (map (\<lambda>p. billedAt ?segf (snd p)) ?xs)"
    by (simp add: bf recomputedSize_def b2f)
  also have "\<dots> = sum_list (map (\<lambda>p. billedAt ?seg (snd p)) ?xs)
                  - billedAt ?seg a + billedAt ?segf a"
    by (rule sum_list_billed_update [OF da mem oth])
  also have "billedAt ?seg a = of_nat (length (tileIndices e)) * NATRON_TILE_SIZE_BYTES"
    by (simp add: billedAt_def e billedBytes_def st)
  also have "billedAt ?segf a
             = size_entry e + of_nat (length (tileIndices e)) * NATRON_TILE_SIZE_BYTES"
    by (simp add: billedAt_def billedBytes_def e3f)
  finally show "recomputedSize (buckets c' bi) = recomputedSize (buckets c bi) + size_entry e"
    by (simp add: recomputedSize_def)
qed

lemma lookupAndCreate_recomputedSize:
  assumes b: "bucket l = Some bi"
    and look: "tryCacheLookupImpl (buckets c bi) (hash_locker l) = None"
    and fresh: "\<And>n p. alloc n = Some p \<Longrightarrow> p \<notin> snd ` set (entriesMap (buckets c bi))"
    and wf: "entriesDistinct (buckets c bi)"
    and r: "lookupAndCreate thread alloc w ts to l c = Inr (ret, w', l', c')"
  shows "size_bucket (buckets c' bi) = size_bucket (buckets c bi)"
    and "recomputedSize (buckets c' bi) = recomputedSize (buckets c bi)"
    and "entriesDistinct (buckets c' bi)"
proof -
  let ?xs = "entriesMap (buckets c bi)"
  let ?seg = "segment (buckets c bi)"
  let ?l = "l\<lparr>status_locker := eCacheEntryStatusMustCompute\<rparr>"
  have loop: "lookupAndCreate_loop thread w ts to 0 l c = Inr (False, w, ?l, c)"
    using b look by (simp add: lookupAndSetStatusInternal_def Let_def)
  from r loop b obtain c1 where c1: "BucketStateHandler_enter bi c = Inr c1"
    by (auto simp: lookupAndCreate_def split: sum.splits)
  have c1b: "buckets c1 bi = (buckets c bi)\<lparr>bucketState := eBucketStateInconsistent\<rparr>"
    using c1 by (auto simp: BucketStateHandler_enter_def upd_bucket_def split: if_splits)
  show "size_bucket (buckets c' bi) = size_bucket (buckets c bi)"
    and "recomputedSize (buckets c' bi) = recomputedSize (buckets c bi)"
    and "entriesDistinct (buckets c' bi)"
  proof (atomize (full), cases "alloc (tocFileSize (buckets c1 bi))")
    case None
    with r loop b c1 have "c' = BucketStateHandler_exit bi c1"
      by (auto simp: lookupAndCreate_def)
    then show "size_bucket (buckets c' bi) = size_bucket (buckets c bi)
       \<and> recomputedSize (buckets c' bi) = recomputedSize (buckets c bi)
       \<and> entriesDistinct (buckets c' bi)"
      using wf by (simp add: BucketStateHandler_exit_def upd_bucket_def c1b)
  next
    case (Some p)
    let ?ce = "newEntryHeader
                 \<lparr>nonPersistentEntry :=
                    (if persistent c1 then None else Some (processLocalEntry ?l)),
                  size_entry := getMetadataSize (processLocalEntry ?l),
                  pluginID := getHolderPluginID (processLocalEntry ?l),
                  status := eEntryStatusPending,
                  computeThreadMagic := thread\<rparr>"
    have mo: "map_of ?xs (hash_locker l) = None"
      using look by (simp add: tryCacheLookupImpl_def)
    from Some r loop b c1 mo
    have bf: "buckets c' bi = (buckets c bi)\<lparr>bucketState := eBucketStateOk,
                 segment := ?seg(p \<mapsto> ?ce), entriesMap := ?xs @ [(hash_locker l, p)]\<rparr>"
      by (auto simp: lookupAndCreate_def Let_def BucketStateHandler_exit_def upd_bucket_def c1b)
    from fresh [of "tocFileSize (buckets c1 bi)" p] Some
    have pf: "p \<notin> snd ` set ?xs" by simp
    have hk: "hash_locker l \<notin> fst ` set ?xs"
      using mo by (simp add: map_of_eq_None_iff)
    have "sum_list (map (\<lambda>q. billedAt (?seg(p \<mapsto> ?ce)) (snd q)) ?xs)
          = sum_list (map (\<lambda>q. billedAt ?seg (snd q)) ?xs)"
      by (rule sum_list_billed_cong) (use pf in \<open>auto simp: billedAt_def\<close>)
    moreover have "billedAt (?seg(p \<mapsto> ?ce)) p = 0"
      by (simp add: billedAt_def billedBytes_def newEntryHeader_def)
    ultimately have "recomputedSize (buckets c' bi) = recomputedSize (buckets c bi)"
      by (simp add: bf recomputedSize_def)
    moreover have "entriesDistinct (buckets c' bi)"
      using wf pf hk by (simp add: bf entriesDistinct_def)
    ultimately show "size_bucket (buckets c' bi) = size_bucket (buckets c bi)
       \<and> recomputedSize (buckets c' bi) = recomputedSize (buckets c bi)
       \<and> entriesDistinct (buckets c' bi)"
      by (simp add: bf)
  qed
qed

lemma takeFreeTile_buckets:
  assumes "takeFreeTile h t c = Inr (r, c')"
  shows "size_bucket (buckets c' j) = size_bucket (buckets c j)"
    and "segment (buckets c' j) = segment (buckets c j)"
    and "entriesMap (buckets c' j) = entriesMap (buckets c j)"
    and "tocFileSize (buckets c' j) = tocFileSize (buckets c j)"
  using assms
  by (auto simp: takeFreeTile_def Let_def upd_bucket_def createTileStorage_buckets
           split: list.splits if_splits)

lemma takeFreeTiles_buckets:
  assumes "takeFreeTiles h ts acc c = Inr (r, c')"
  shows "size_bucket (buckets c' j) = size_bucket (buckets c j)
         \<and> segment (buckets c' j) = segment (buckets c j)
         \<and> entriesMap (buckets c' j) = entriesMap (buckets c j)
         \<and> tocFileSize (buckets c' j) = tocFileSize (buckets c j)"
  using assms
proof (induction ts arbitrary: acc c)
  case Nil
  then show ?case by simp
next
  case (Cons t ts)
  from Cons.prems obtain r1 c1 where t1: "takeFreeTile h t c = Inr (r1, c1)"
    by (auto split: sum.splits)
  note f = takeFreeTile_buckets [OF t1, of j]
  show ?case
  proof (cases r1)
    case None
    with Cons.prems t1 f show ?thesis by auto
  next
    case (Some fr)
    with Cons.prems t1 have "takeFreeTiles h ts (acc @ [fr]) c1 = Inr (r, c')" by simp
    from Cons.IH [OF this] f show ?thesis by simp
  qed
qed

lemma takeFreeTiles_length:
  "takeFreeTiles h ts acc c = Inr (Some allocated, c') \<Longrightarrow>
     length allocated = length acc + length ts"
proof (induction ts arbitrary: acc c)
  case Nil
  then show ?case by simp
next
  case (Cons t ts)
  from Cons.prems obtain fr c1 where "takeFreeTile h t c = Inr (Some fr, c1)"
    and "takeFreeTiles h ts (acc @ [fr]) c1 = Inr (Some allocated, c')"
    by (auto split: sum.splits option.splits)
  from Cons.IH [OF this(2)] show ?case by simp
qed

lemma retrieveAndLockTiles_recomputedSize:
  assumes bi: "bi = getBucketCacheBucketIndex (getHashKey entry)"
    and look: "tryCacheLookupImpl (buckets c bi) (getHashKey entry) = Some a"
    and ne: "tilesToAlloc \<noteq> []"
    and ok: "tileListAlloc (tocFileSize (buckets c bi))"
    and wf: "entriesDistinct (buckets c bi)"
    and r: "retrieveAndLockTiles tileListAlloc entry tiles tilesToAlloc c = Inr (True, c')"
  shows "size_bucket (buckets c' bi)
           = size_bucket (buckets c bi) + of_nat (length tilesToAlloc) * NATRON_TILE_SIZE_BYTES"
    and "recomputedSize (buckets c' bi)
           = recomputedSize (buckets c bi) + of_nat (length tilesToAlloc) * NATRON_TILE_SIZE_BYTES"
    and "entriesDistinct (buckets c' bi)"
proof -
  let ?h = "getHashKey entry"
  let ?xs = "entriesMap (buckets c bi)"
  let ?seg = "segment (buckets c bi)"
  let ?n = "of_nat (length tilesToAlloc) * NATRON_TILE_SIZE_BYTES :: U64"
  from r ne obtain allocated c1 where
    tk: "takeFreeTiles ?h tilesToAlloc [] c = Inr (Some allocated, c1)"
    by (auto simp: retrieveAndLockTiles_def Let_def split: sum.splits option.splits)
  note f = takeFreeTiles_buckets [OF tk, of bi]
  have len: "length allocated = length tilesToAlloc"
    using takeFreeTiles_length [OF tk] by simp
  have look1: "tryCacheLookupImpl (buckets c1 bi) ?h = Some a"
    using look f by (simp add: tryCacheLookupImpl_def)
  from r tk ne look1 bi obtain e where e1: "segment (buckets c1 bi) a = Some e"
    by (auto simp: retrieveAndLockTiles_def Let_def split: option.splits)
  then have e: "?seg a = Some e" using f by simp
  let ?c2 = "upd_bucket bi (\<lambda>b. b\<lparr>size_bucket := size_bucket b + ?n\<rparr>) c1"
  let ?e' = "e\<lparr>tileIndices := tileIndices e @ allocated\<rparr>"
  let ?c3 = "upd_bucket bi (\<lambda>b. b\<lparr>segment := (segment b)(a \<mapsto> ?e')\<rparr>) ?c2"
  have st: "storeTileIndices tileListAlloc 0 bi ?h a (tileIndices e @ allocated) tilesToAlloc
              allocated ?c2 = Inr (True, ?c3)"
    using e1 ok f by (simp add: upd_bucket_def)
  from r tk ne look1 e1 st bi have c': "c' = ?c3"
    by (auto simp: retrieveAndLockTiles_def Let_def split: if_splits)
  have bf: "buckets c' bi = (buckets c1 bi)\<lparr>size_bucket := size_bucket (buckets c1 bi) + ?n,
                               segment := (segment (buckets c1 bi))(a \<mapsto> ?e')\<rparr>"
    by (simp add: c' upd_bucket_def)
  show "size_bucket (buckets c' bi) = size_bucket (buckets c bi) + ?n"
    by (simp add: bf f)
  show "entriesDistinct (buckets c' bi)"
    using wf by (simp add: bf entriesDistinct_def f)
  from look have mem: "(?h, a) \<in> set ?xs"
    by (auto simp: tryCacheLookupImpl_def dest: map_of_SomeD)
  from wf have da: "distinct (map snd ?xs)" by (simp add: entriesDistinct_def)
  have "recomputedSize (buckets c' bi)
        = sum_list (map (\<lambda>p. billedAt (?seg(a \<mapsto> ?e')) (snd p)) ?xs)"
    by (simp add: bf recomputedSize_def f)
  also have "\<dots> = sum_list (map (\<lambda>p. billedAt ?seg (snd p)) ?xs)
                  - billedAt ?seg a + billedAt (?seg(a \<mapsto> ?e')) a"
    by (rule sum_list_billed_update [OF da mem]) (simp add: billedAt_def)
  also have "billedAt (?seg(a \<mapsto> ?e')) a = billedAt ?seg a + ?n"
    by (simp add: billedAt_def billedBytes_def e len algebra_simps)
  finally show "recomputedSize (buckets c' bi) = recomputedSize (buckets c bi) + ?n"
    by (simp add: recomputedSize_def)
qed

text \<open>
  C4, as amended. Take a bucket whose map has pairwise distinct hashes and header offsets
  and whose recorded size equals the sum, over the entries of its map, of the byte size
  of each ready entry plus \<open>NATRON_TILE_SIZE_BYTES\<close> for each tile of each entry. Then
  each of the following keeps this equality and the distinctness. Reserving an entry for
  a hash that is not in the map (\<open>lookupAndCreate\<close>, the allocator returning an offset
  that no entry of the map has) leaves the size unchanged: a pending entry is not
  counted. Inserting a pending entry (\<open>insertInternal\<close> returning
  \<open>eInsertRetCodeCreated\<close>) adds its byte size. Allocating tiles to an entry of the map
  (\<open>retrieveAndLockTiles\<close> returning \<open>true\<close>, the tile list stored at the first attempt)
  adds \<open>NATRON_TILE_SIZE_BYTES\<close> for each tile allocated. Deallocating a ready entry
  subtracts its byte size and \<open>NATRON_TILE_SIZE_BYTES\<close> for each of its tiles, which is
  what was added for it.
\<close>

theorem C4_size_counts_inserted_entries:
  assumes inv: "size_bucket (buckets c bi) = recomputedSize (buckets c bi)"
    and wf: "entriesDistinct (buckets c bi)"
  shows
  "(bucket l = Some bi \<and> tryCacheLookupImpl (buckets c bi) (hash_locker l) = None
      \<and> (\<forall>n p. alloc n = Some p \<longrightarrow> p \<notin> snd ` set (entriesMap (buckets c bi)))
      \<and> lookupAndCreate thread alloc w ts to l c = Inr (ret, w', l', c')
    \<longrightarrow> size_bucket (buckets c' bi) = size_bucket (buckets c bi)
        \<and> size_bucket (buckets c' bi) = recomputedSize (buckets c' bi)
        \<and> entriesDistinct (buckets c' bi))
   \<and> (bucket l = Some bi \<and> tryCacheLookupImpl (buckets c bi) (hash_locker l) = Some a
        \<and> segment (buckets c bi) a = Some e \<and> status e = eEntryStatusPending
        \<and> computeThreadMagic e \<noteq> 0
        \<and> insertInternal propAlloc l c = Inr (eInsertRetCodeCreated, l', c')
      \<longrightarrow> size_bucket (buckets c' bi) = size_bucket (buckets c bi) + size_entry e
          \<and> size_bucket (buckets c' bi) = recomputedSize (buckets c' bi)
          \<and> entriesDistinct (buckets c' bi))
   \<and> (bi = getBucketCacheBucketIndex (getHashKey entry)
        \<and> tryCacheLookupImpl (buckets c bi) (getHashKey entry) = Some a
        \<and> tilesToAlloc \<noteq> [] \<and> tileListAlloc (tocFileSize (buckets c bi))
        \<and> retrieveAndLockTiles tileListAlloc entry tiles tilesToAlloc c = Inr (True, c')
      \<longrightarrow> size_bucket (buckets c' bi)
            = size_bucket (buckets c bi)
                + of_nat (length tilesToAlloc) * NATRON_TILE_SIZE_BYTES
          \<and> size_bucket (buckets c' bi) = recomputedSize (buckets c' bi)
          \<and> entriesDistinct (buckets c' bi))
   \<and> (tryCacheLookupImpl (buckets c bi) h = Some a
        \<and> segment (buckets c bi) a = Some e \<and> status e = eEntryStatusReady
        \<and> deallocateCacheEntryImpl bi h a c = Inr c'
      \<longrightarrow> size_bucket (buckets c' bi)
            = size_bucket (buckets c bi) - size_entry e
                - of_nat (length (tileIndices e)) * NATRON_TILE_SIZE_BYTES
          \<and> size_bucket (buckets c' bi) = recomputedSize (buckets c' bi)
          \<and> entriesDistinct (buckets c' bi))"
proof (intro conjI impI)
  assume h: "bucket l = Some bi \<and> tryCacheLookupImpl (buckets c bi) (hash_locker l) = None
      \<and> (\<forall>n p. alloc n = Some p \<longrightarrow> p \<notin> snd ` set (entriesMap (buckets c bi)))
      \<and> lookupAndCreate thread alloc w ts to l c = Inr (ret, w', l', c')"
  then have fresh: "\<And>n p. alloc n = Some p \<Longrightarrow> p \<notin> snd ` set (entriesMap (buckets c bi))"
    by blast
  from h have b: "bucket l = Some bi"
    and look: "tryCacheLookupImpl (buckets c bi) (hash_locker l) = None"
    and r: "lookupAndCreate thread alloc w ts to l c = Inr (ret, w', l', c')" by blast+
  note k = lookupAndCreate_recomputedSize [OF b look fresh wf r]
  show "size_bucket (buckets c' bi) = size_bucket (buckets c bi)" by (rule k(1))
  show "size_bucket (buckets c' bi) = recomputedSize (buckets c' bi)"
    by (simp add: k(1) k(2) inv)
  show "entriesDistinct (buckets c' bi)" by (rule k(3))
next
  assume h: "bucket l = Some bi \<and> tryCacheLookupImpl (buckets c bi) (hash_locker l) = Some a
        \<and> segment (buckets c bi) a = Some e \<and> status e = eEntryStatusPending
        \<and> computeThreadMagic e \<noteq> 0
        \<and> insertInternal propAlloc l c = Inr (eInsertRetCodeCreated, l', c')"
  then have b: "bucket l = Some bi"
    and look: "tryCacheLookupImpl (buckets c bi) (hash_locker l) = Some a"
    and e: "segment (buckets c bi) a = Some e" and st: "status e = eEntryStatusPending"
    and m: "computeThreadMagic e \<noteq> 0"
    and ins: "insertInternal propAlloc l c = Inr (eInsertRetCodeCreated, l', c')" by blast+
  note k = insertInternal_recomputedSize [OF b look e st m wf ins]
  show "size_bucket (buckets c' bi) = size_bucket (buckets c bi) + size_entry e" by (rule k(1))
  show "size_bucket (buckets c' bi) = recomputedSize (buckets c' bi)"
    by (simp add: k(1) k(2) inv)
  show "entriesDistinct (buckets c' bi)" by (rule k(3))
next
  assume h: "bi = getBucketCacheBucketIndex (getHashKey entry)
        \<and> tryCacheLookupImpl (buckets c bi) (getHashKey entry) = Some a
        \<and> tilesToAlloc \<noteq> [] \<and> tileListAlloc (tocFileSize (buckets c bi))
        \<and> retrieveAndLockTiles tileListAlloc entry tiles tilesToAlloc c = Inr (True, c')"
  then have bi: "bi = getBucketCacheBucketIndex (getHashKey entry)"
    and look: "tryCacheLookupImpl (buckets c bi) (getHashKey entry) = Some a"
    and ne: "tilesToAlloc \<noteq> []" and ok: "tileListAlloc (tocFileSize (buckets c bi))"
    and r: "retrieveAndLockTiles tileListAlloc entry tiles tilesToAlloc c = Inr (True, c')"
    by blast+
  note k = retrieveAndLockTiles_recomputedSize [OF bi look ne ok wf r]
  show "size_bucket (buckets c' bi)
          = size_bucket (buckets c bi) + of_nat (length tilesToAlloc) * NATRON_TILE_SIZE_BYTES"
    by (rule k(1))
  show "size_bucket (buckets c' bi) = recomputedSize (buckets c' bi)"
    by (simp add: k(1) k(2) inv)
  show "entriesDistinct (buckets c' bi)" by (rule k(3))
next
  assume h: "tryCacheLookupImpl (buckets c bi) h = Some a
        \<and> segment (buckets c bi) a = Some e \<and> status e = eEntryStatusReady
        \<and> deallocateCacheEntryImpl bi h a c = Inr c'"
  then have look: "tryCacheLookupImpl (buckets c bi) h = Some a"
    and e: "segment (buckets c bi) a = Some e" and st: "status e = eEntryStatusReady"
    and d: "deallocateCacheEntryImpl bi h a c = Inr c'" by blast+
  note k = deallocate_recomputedSize [OF d e look wf]
  have s: "size_bucket (buckets c' bi)
             = size_bucket (buckets c bi) - size_entry e
                 - of_nat (length (tileIndices e)) * NATRON_TILE_SIZE_BYTES"
    using deallocate_size_bucket [OF d e, of bi] by simp
  show "size_bucket (buckets c' bi)
          = size_bucket (buckets c bi) - size_entry e
              - of_nat (length (tileIndices e)) * NATRON_TILE_SIZE_BYTES" by (rule s)
  show "size_bucket (buckets c' bi) = recomputedSize (buckets c' bi)"
    by (simp add: s k(1) inv billedBytes_def st algebra_simps)
  show "entriesDistinct (buckets c' bi)" by (rule k(2))
qed

lemma reserved_by_lookupAndCreate:
  "lookupAndCreate 1 (\<lambda>n. Some 0) False 0 0 reservedLocker (cache0 0)
     = Inr (eLookupAndCreateRetCodeCreated, False, reservedLocker, reservedCache)"
  by (simp add: reservedLocker_def reservedCache_def reservedEntry_def model_defs Let_def)

lemma reservedCache_insertInternal:
  "\<exists>l' c'. insertInternal (\<lambda>n. True) reservedLocker reservedCache
             = Inr (eInsertRetCodeCreated, l', c')"
  by (simp add: reservedLocker_def reservedCache_def reservedEntry_def model_defs Let_def)

lemma cacheWithFreeTile_retrieveAndLockTiles:
  "\<exists>c'. retrieveAndLockTiles (\<lambda>n. True) (payload 5 100) [] [0] cacheWithFreeTile = Inr (True, c')"
  by (simp add: retrieveAndLockTiles_def takeFreeTile_def getBucketIndexForTile_def
        cacheWithFreeTile_def cacheWithOneEntry_def readyEntryWithoutHash_def
        encodeTileIndex_def getBucketCacheBucketIndex_low_byte model_defs Let_def)

lemma cacheWithOneEntry_deallocate:
  "\<exists>c'. deallocateCacheEntryImpl 5 5 0 cacheWithOneEntry = Inr c'"
  by (simp add: cacheWithOneEntry_def readyEntryWithoutHash_def model_defs Let_def)

theorem C4_size_counts_inserted_entries_witness:
  "size_bucket (buckets (cache0 0) 5) = recomputedSize (buckets (cache0 0) 5)
   \<and> entriesDistinct (buckets (cache0 0) 5)
   \<and> lookupAndCreate 1 (\<lambda>n. Some 0) False 0 0 reservedLocker (cache0 0)
       = Inr (eLookupAndCreateRetCodeCreated, False, reservedLocker, reservedCache)
   \<and> size_bucket (buckets reservedCache 5) = 0
   \<and> recomputedSize (buckets reservedCache 5) = 0
   \<and> entriesDistinct (buckets reservedCache 5)
   \<and> (\<exists>l' c'. insertInternal (\<lambda>n. True) reservedLocker reservedCache
                  = Inr (eInsertRetCodeCreated, l', c')
          \<and> size_bucket (buckets c' 5) = 100
          \<and> recomputedSize (buckets c' 5) = 100)
   \<and> size_bucket (buckets cacheWithFreeTile 5) = recomputedSize (buckets cacheWithFreeTile 5)
   \<and> entriesDistinct (buckets cacheWithFreeTile 5)
   \<and> (\<exists>c'. retrieveAndLockTiles (\<lambda>n. True) (payload 5 100) [] [0] cacheWithFreeTile
               = Inr (True, c')
          \<and> size_bucket (buckets c' 5) = 100 + NATRON_TILE_SIZE_BYTES
          \<and> recomputedSize (buckets c' 5) = 100 + NATRON_TILE_SIZE_BYTES)
   \<and> size_bucket (buckets cacheWithOneEntry 5) = recomputedSize (buckets cacheWithOneEntry 5)
   \<and> entriesDistinct (buckets cacheWithOneEntry 5)
   \<and> (\<exists>c'. deallocateCacheEntryImpl 5 5 0 cacheWithOneEntry = Inr c'
          \<and> size_bucket (buckets c' 5) = 0
          \<and> recomputedSize (buckets c' 5) = 0)"
proof -
  note ev = recomputedSize_def billedAt_def billedBytes_def entriesDistinct_def
    tryCacheLookupImpl_def emptyBucket_def newEntryHeader_def
  note t = C4_size_counts_inserted_entries
  have i0: "size_bucket (buckets (cache0 0) 5) = recomputedSize (buckets (cache0 0) 5)"
    and w0: "entriesDistinct (buckets (cache0 0) 5)"
    and s0: "size_bucket (buckets (cache0 0) 5) = 0"
    by (simp_all add: cache0_def ev)
  have h0: "bucket reservedLocker = Some 5"
    "tryCacheLookupImpl (buckets (cache0 0) 5) (hash_locker reservedLocker) = None"
    "\<forall>n p. (\<lambda>n. Some 0) n = Some p \<longrightarrow> p \<notin> snd ` set (entriesMap (buckets (cache0 0) 5))"
    by (simp_all add: reservedLocker_def cache0_def ev)
  from t [OF i0 w0, where l = reservedLocker and alloc = "\<lambda>n. Some 0" and thread = 1
            and w = False and ts = 0 and to = 0 and ret = eLookupAndCreateRetCodeCreated
            and w' = False and l' = reservedLocker and c' = reservedCache, THEN conjunct1]
    h0 reserved_by_lookupAndCreate
  have a: "size_bucket (buckets reservedCache 5) = size_bucket (buckets (cache0 0) 5)"
    "size_bucket (buckets reservedCache 5) = recomputedSize (buckets reservedCache 5)"
    "entriesDistinct (buckets reservedCache 5)"
    by blast+
  have a1: "size_bucket (buckets reservedCache 5) = 0"
    using a(1) s0 by simp
  have a2: "recomputedSize (buckets reservedCache 5) = 0"
    using a(2) [symmetric] a1 by simp
  have h1: "tryCacheLookupImpl (buckets reservedCache 5) (hash_locker reservedLocker) = Some 0"
    "segment (buckets reservedCache 5) 0 = Some reservedEntry"
    "status reservedEntry = eEntryStatusPending" "computeThreadMagic reservedEntry \<noteq> 0"
    by (simp_all add: reservedCache_def reservedLocker_def reservedEntry_def ev)
  have z1: "size_entry reservedEntry = 100"
    by (simp add: reservedEntry_def)
  from reservedCache_insertInternal obtain l' c' where
    ins: "insertInternal (\<lambda>n. True) reservedLocker reservedCache
            = Inr (eInsertRetCodeCreated, l', c')" by blast
  from t [OF a(2) a(3), where l = reservedLocker and l' = l' and c' = c'
            and a = 0 and e = reservedEntry and propAlloc = "\<lambda>n. True",
          THEN conjunct2, THEN conjunct1]
    h0(1) h1 ins
  have b: "size_bucket (buckets c' 5)
             = size_bucket (buckets reservedCache 5) + size_entry reservedEntry"
    "size_bucket (buckets c' 5) = recomputedSize (buckets c' 5)"
    by blast+
  have b1: "size_bucket (buckets c' 5) = 100"
    using b(1) a1 z1 by simp
  have b2: "recomputedSize (buckets c' 5) = 100"
    using b(2) [symmetric] b1 by simp
  have i2: "size_bucket (buckets cacheWithFreeTile 5) = recomputedSize (buckets cacheWithFreeTile 5)"
    and w2: "entriesDistinct (buckets cacheWithFreeTile 5)"
    and s2: "size_bucket (buckets cacheWithFreeTile 5) = 100"
    by (simp_all add: cacheWithFreeTile_def cacheWithOneEntry_def readyEntryWithoutHash_def ev)
  have h2: "5 = getBucketCacheBucketIndex (getHashKey (payload 5 100))"
    "tryCacheLookupImpl (buckets cacheWithFreeTile 5) (getHashKey (payload 5 100)) = Some 0"
    "[0 :: U64] \<noteq> []" "(\<lambda>n. True) (tocFileSize (buckets cacheWithFreeTile 5))"
    by (simp_all add: getBucketCacheBucketIndex_low_byte payload_def cacheWithFreeTile_def
          cacheWithOneEntry_def ev)
  from cacheWithFreeTile_retrieveAndLockTiles obtain c2 where
    r: "retrieveAndLockTiles (\<lambda>n. True) (payload 5 100) [] [0] cacheWithFreeTile = Inr (True, c2)"
    by blast
  from t [OF i2 w2, where c' = c2 and a = 0 and entry = "payload 5 100"
            and tilesToAlloc = "[0]" and tileListAlloc = "\<lambda>n. True" and tiles = "[]",
          THEN conjunct2, THEN conjunct2, THEN conjunct1] h2 r
  have c: "size_bucket (buckets c2 5)
             = size_bucket (buckets cacheWithFreeTile 5)
                 + of_nat (length [0::U64]) * NATRON_TILE_SIZE_BYTES"
    "size_bucket (buckets c2 5) = recomputedSize (buckets c2 5)"
    by blast+
  have c1: "size_bucket (buckets c2 5) = 100 + NATRON_TILE_SIZE_BYTES"
    using c(1) s2 by simp
  have c2: "recomputedSize (buckets c2 5) = 100 + NATRON_TILE_SIZE_BYTES"
    using c(2) [symmetric] c1 by simp
  have i3: "size_bucket (buckets cacheWithOneEntry 5) = recomputedSize (buckets cacheWithOneEntry 5)"
    and w3: "entriesDistinct (buckets cacheWithOneEntry 5)"
    and s3: "size_bucket (buckets cacheWithOneEntry 5) = 100"
    by (simp_all add: cacheWithOneEntry_def readyEntryWithoutHash_def ev)
  have h3: "tryCacheLookupImpl (buckets cacheWithOneEntry 5) 5 = Some 0"
    "segment (buckets cacheWithOneEntry 5) 0 = Some readyEntryWithoutHash"
    "status readyEntryWithoutHash = eEntryStatusReady"
    by (simp_all add: cacheWithOneEntry_def readyEntryWithoutHash_def ev)
  have z3: "size_entry readyEntryWithoutHash = 100" "tileIndices readyEntryWithoutHash = []"
    by (simp_all add: readyEntryWithoutHash_def newEntryHeader_def)
  from cacheWithOneEntry_deallocate obtain c3 where
    d: "deallocateCacheEntryImpl 5 5 0 cacheWithOneEntry = Inr c3" by blast
  from t [OF i3 w3, where c' = c3 and a = 0 and e = readyEntryWithoutHash and h = 5,
          THEN conjunct2, THEN conjunct2, THEN conjunct2] h3 d
  have e: "size_bucket (buckets c3 5)
             = size_bucket (buckets cacheWithOneEntry 5) - size_entry readyEntryWithoutHash
                 - of_nat (length (tileIndices readyEntryWithoutHash)) * NATRON_TILE_SIZE_BYTES"
    "size_bucket (buckets c3 5) = recomputedSize (buckets c3 5)"
    by blast+
  have e1: "size_bucket (buckets c3 5) = 0"
    using e(1) s3 z3 by simp
  have e2: "recomputedSize (buckets c3 5) = 0"
    using e(2) [symmetric] e1 by simp
  show ?thesis
    using i0 w0 reserved_by_lookupAndCreate a1 a2 a(3) ins b1 b2 i2 w2 r c1 c2 i3 w3 d e1 e2
    by (intro conjI exI)
qed

text \<open>
  The claim as stated counts the pending entries too. After \<open>Cache::get\<close> by thread 1
  for the hash \<open>0x105\<close> on the empty cache, bucket 5 holds a pending entry of 100 bytes
  and its recorded size is 0, while the sum over its ready or pending entries is 100.
\<close>

theorem C4_pending_entry_not_counted_counterexample:
  "Cache_get 1 (\<lambda>n. Some 0) (payload 0x105 100) (cache0 0) = Inr (reservedLocker, reservedCache)
   \<and> size_bucket (buckets reservedCache 5) = 0
   \<and> sizeOfReadyOrPendingEntries (buckets reservedCache 5) = 100"
  using reserved_reachable
  by (simp add: sizeOfReadyOrPendingEntries_def reservedCache_def reservedEntry_def
        emptyBucket_def newEntryHeader_def)

text \<open>
  \<open>deallocateCacheEntryImpl\<close> subtracts the byte size of an entry whatever its status.
  Dropping the locker of the pending entry above subtracts 100 bytes that were never
  added, and the size wraps around to \<open>2^64 - 100\<close>. The statement above is about ready
  entries and says nothing of this path.
\<close>

lemma drop_before_insert_wraps_size:
  "case Cache_get 1 (\<lambda>n. Some 0) (payload 0x105 100) (cache0 0) of
     Inl err \<Rightarrow> False
   | Inr (l, c1) \<Rightarrow>
       status_locker l = eCacheEntryStatusMustCompute
       \<and> entriesMap (buckets c1 5) = [(0x105, 0)]
       \<and> map_option status (segment (buckets c1 5) 0) = Some eEntryStatusPending
       \<and> map_option size_entry (segment (buckets c1 5) 0) = Some 100
       \<and> size_bucket (buckets c1 5) = 0
       \<and> (case CacheEntryLocker_destroy l c1 of
             Inl err \<Rightarrow> False
           | Inr c2 \<Rightarrow>
               entriesMap (buckets c2 5) = []
               \<and> size_bucket (buckets c2 5) = 18446744073709551516)"
  by (simp add: model_defs Let_def)

section \<open>C5: which bucket owns a tile\<close>

lemma set_fold_insort_insert:
  "set (fold insort_insert xs ys) = set xs \<union> set ys"
  by (induction xs arbitrary: ys) (auto simp: set_insort_insert)

lemma tileCache0_freeTiles:
  "j < 256 \<Longrightarrow> set (freeTiles (buckets tileCache0 j))
     = (\<lambda>i. encodeTileIndex i 0) ` {j * 256 ..< j * 256 + 256}"
  by (simp add: tileCache0_def createTileStorage_buckets cache0_def emptyBucket_def
        set_fold_insort_insert newTilesOfBucket_def NATRON_CACHE_BUCKETS_COUNT_def
        NATRON_NUM_TILES_PER_BUCKET_FILE_def)




lemma tileIndex_encodeTileIndex:
  assumes "i < 2 ^ 32"
  shows "unat (drop_bit 32 (encodeTileIndex i 0)) = i"
proof -
  have i64: "i mod 18446744073709551616 = i"
    using assms by simp
  have "unat (drop_bit 32 (push_bit 32 (word_of_nat i :: U64)))
        = drop_bit 32 (take_bit 64 (push_bit 32 i))"
    by (simp add: unat_drop_bit_eq unsigned_push_bit_eq unat_of_nat i64)
  also have "\<dots> = take_bit 32 i"
    by (simp add: drop_bit_take_bit drop_bit_push_bit)
  also have "take_bit 32 i = i"
    using assms by (intro take_bit_nat_eq_self)
  finally show ?thesis by (simp add: encodeTileIndex_def)
qed

lemma tileOwnerOnFree_encodeTileIndex:
  assumes "i < 2 ^ 32"
  shows "tileOwnerOnFree (encodeTileIndex i 0) = i mod 256"
proof -
  have "unat (ucast (drop_bit 32 (encodeTileIndex i 0)) :: 32 word)
        = take_bit 32 (unat (drop_bit 32 (encodeTileIndex i 0)))"
    by (simp add: unsigned_ucast_eq)
  also have "\<dots> = i"
    using assms by (simp add: tileIndex_encodeTileIndex take_bit_nat_eq_self)
  finally show ?thesis
    by (simp add: tileOwnerOnFree_def getTileIndex_def NATRON_NUM_TILES_PER_BUCKET_FILE_def)
qed

lemma encodeTileIndex_inj:
  assumes "i < 2 ^ 32" and "k < 2 ^ 32" and "encodeTileIndex i 0 = encodeTileIndex k 0"
  shows "i = k"
  using tileIndex_encodeTileIndex [OF assms(1)] tileIndex_encodeTileIndex [OF assms(2)] assms(3)
  by metis

lemma tile_1_seeded_in_bucket_0:
  "encodeTileIndex 1 0 \<in> set (freeTiles (buckets tileCache0 0))
   \<and> encodeTileIndex 1 0 \<notin> set (freeTiles (buckets tileCache0 1))"
proof
  have "encodeTileIndex 1 0 \<in> (\<lambda>i. encodeTileIndex i 0) ` {0 ..< 256}"
    by (rule image_eqI [where x = 1]) simp_all
  moreover have "set (freeTiles (buckets tileCache0 0))
                 = (\<lambda>i. encodeTileIndex i 0) ` {0 ..< 256}"
    using tileCache0_freeTiles [of 0] by simp
  ultimately show "encodeTileIndex 1 0 \<in> set (freeTiles (buckets tileCache0 0))"
    by (simp only:)
next
  have "encodeTileIndex 1 0 \<noteq> encodeTileIndex k 0" if "k \<in> {256 ..< 512}" for k
  proof
    assume "encodeTileIndex 1 0 = encodeTileIndex k 0"
    then have "1 = k"
      by (rule encodeTileIndex_inj [rotated 2]) (use that in simp_all)
    with that show False by simp
  qed
  then have "encodeTileIndex 1 0 \<notin> (\<lambda>i. encodeTileIndex i 0) ` {256 ..< 512}"
    by blast
  moreover have "set (freeTiles (buckets tileCache0 1))
                 = (\<lambda>i. encodeTileIndex i 0) ` {256 ..< 512}"
    using tileCache0_freeTiles [of 1] by simp
  ultimately show "encodeTileIndex 1 0 \<notin> set (freeTiles (buckets tileCache0 1))"
    by (simp only:) simp
qed



text \<open>
  C5. The claim is that the owning bucket of a tile is its tile index modulo 256, that a
  new storage file seeds each tile into the free tiles of its owning bucket, and that
  freeing a tile returns it there. \<open>createTileStorage\<close> gives bucket \<open>b\<close> the tiles
  \<open>b * 256\<close> to \<open>b * 256 + 255\<close>, so the tile 1 of file 0 is seeded into bucket 0 and
  not into bucket 1, while \<open>deallocateCacheEntryImpl\<close> takes the index modulo 256 and
  returns the tile to bucket 1: after the entry that held the tiles 0 and 1 is removed,
  tile 1 is free in bucket 1 and no longer in bucket 0.
\<close>

theorem C5_seeding_and_freeing_disagree:
  "encodeTileIndex 1 0 \<in> set (freeTiles (buckets tileCache0 0))
   \<and> encodeTileIndex 1 0 \<notin> set (freeTiles (buckets tileCache0 1))
   \<and> tileOwnerOnFree (encodeTileIndex 1 0) = 1
   \<and> (\<exists>c'. removeEntry (Some (payload 5 100)) cacheWithTiles = Inr c'
          \<and> encodeTileIndex 1 0 \<notin> set (freeTiles (buckets c' 0))
          \<and> encodeTileIndex 1 0 \<in> set (freeTiles (buckets c' 1)))"
proof -
  let ?t0 = "encodeTileIndex 0 0" and ?t1 = "encodeTileIndex 1 0"
  let ?e = "newEntryHeader\<lparr>size_entry := 100, status := eEntryStatusReady,
              lruNode := \<lparr>prev = None, next = None, hash = 5\<rparr>,
              tileIndices := [?t0, ?t1]\<rparr>"
  have o0: "tileOwnerOnFree ?t0 = 0" using tileOwnerOnFree_encodeTileIndex [of 0] by simp
  have o1: "tileOwnerOnFree ?t1 = 1" using tileOwnerOnFree_encodeTileIndex [of 1] by simp
  have ne: "?t1 \<noteq> ?t0" using encodeTileIndex_inj [of 1 0] by auto
  have idx: "getBucketCacheBucketIndex 5 = 5"
    by (simp add: getBucketCacheBucketIndex_low_byte)
  have ok: "bucketState (buckets cacheWithTiles 5) = eBucketStateOk"
    by (simp add: cacheWithTiles_def tileCache0_def createTileStorage_buckets cache0_def
          emptyBucket_def)
  then obtain c1 where c1: "BucketStateHandler_enter 5 cacheWithTiles = Inr c1"
    by (simp add: BucketStateHandler_enter_def)
  have look: "tryCacheLookupImpl (buckets c1 5) 5 = Some 0"
    by (simp add: tryCacheLookupImpl_def enter_fields(2) [OF c1] cacheWithTiles_def)
  have e: "segment (buckets c1 5) 0 = Some ?e"
    by (simp add: enter_fields(1) [OF c1] cacheWithTiles_def)
  have "\<exists>c2. deallocateCacheEntryImpl 5 5 0 c1 = Inr c2"
    by (rule deallocate_returns [OF e]) (simp_all add: newEntryHeader_def)
  then obtain c2 where d: "deallocateCacheEntryImpl 5 5 0 c1 = Inr c2" by blast
  have r: "removeEntry (Some (payload 5 100)) cacheWithTiles = Inr (BucketStateHandler_exit 5 c2)"
    using c1 look d by (simp add: removeEntry_def payload_def idx Let_def)
  have f0: "set (freeTiles (buckets c1 0))
            = {t \<in> set (freeTiles (buckets tileCache0 0)). t \<noteq> ?t0 \<and> t \<noteq> ?t1}"
    by (auto simp: enter_fields(3) [OF c1] cacheWithTiles_def)
  have f1: "set (freeTiles (buckets c1 1)) = set (freeTiles (buckets tileCache0 1))"
    by (simp add: enter_fields(3) [OF c1] cacheWithTiles_def)
  have a: "?t1 \<notin> set (freeTiles (buckets c2 0))"
    using o0 o1 ne by (auto simp: deallocate_freeTiles [OF d e] f0)
  have b: "?t1 \<in> set (freeTiles (buckets c2 1))"
    using o1 by (simp add: deallocate_freeTiles [OF d e] f1)
  show ?thesis
    using tile_1_seeded_in_bucket_0 o1 r a b by simp
qed

section \<open>C6: taking over a pending entry\<close>

text \<open>
  C6. The claim is that a caller whose timeout has expired and that finds the entry
  pending with another owner, under the write lock, keeps the entry pending, gets the
  status \<open>MustCompute\<close> and becomes the owner of the entry. The code does the first two
  and leaves \<open>computeThreadMagic\<close> as it was: thread 1 reserves the entry, thread 2 finds
  it pending, and after 10 ms with a timeout of 10 ms thread 2 takes it over, while the
  entry still names thread 1.
\<close>

theorem C6_takeover_keeps_old_owner:
  "case Cache_get 1 (\<lambda>n. Some 0) (payload 0x105 100) (cache0 0) of
     Inl err \<Rightarrow> False
   | Inr (l1, c1) \<Rightarrow>
       map_option computeThreadMagic (segment (buckets c1 5) 0) = Some 1
       \<and> (case Cache_get 2 (\<lambda>n. Some 1) (payload 0x105 100) c1 of
             Inl err \<Rightarrow> False
           | Inr (l2, c2) \<Rightarrow>
               status_locker l2 = eCacheEntryStatusComputationPending
               \<and> (case lookupAndSetStatus 2 (\<lambda>n. Some 1) 10 10 l2 c2 of
                     Inl err \<Rightarrow> False
                   | Inr (l3, c3) \<Rightarrow>
                       status_locker l3 = eCacheEntryStatusMustCompute
                       \<and> entriesMap (buckets c3 5) = [(0x105, 0)]
                       \<and> map_option status (segment (buckets c3 5) 0)
                           = Some eEntryStatusPending
                       \<and> map_option computeThreadMagic (segment (buckets c3 5) 0)
                           = Some 1))"
  by (simp add: model_defs Let_def)

section \<open>C7: dropping a locker\<close>

lemma set_prev_withoutLinks:
  "set_prev b p seg = Some seg' \<Longrightarrow>
     map_option withoutLinks (seg' x) = map_option withoutLinks (seg x)"
  by (cases "x = b") (auto simp: set_prev_def withoutLinks_def split: option.splits)

lemma set_next_withoutLinks:
  "set_next b n seg = Some seg' \<Longrightarrow>
     map_option withoutLinks (seg' x) = map_option withoutLinks (seg x)"
  by (cases "x = b") (auto simp: set_next_def withoutLinks_def split: option.splits)

lemma set_prev_untouched: "set_prev b p seg = Some seg' \<Longrightarrow> b \<noteq> x \<Longrightarrow> seg' x = seg x"
  by (auto simp: set_prev_def split: option.splits)

lemma set_next_untouched: "set_next b n seg = Some seg' \<Longrightarrow> b \<noteq> x \<Longrightarrow> seg' x = seg x"
  by (auto simp: set_next_def split: option.splits)

lemma disconnect_steps:
  assumes "disconnectLinkedListNode a seg = Some seg'"
  obtains e seg1 seg2 e2 seg3 where "seg a = Some e"
    "(case prev (lruNode e) of Some p \<Rightarrow> set_next p (next (lruNode e)) seg
      | None \<Rightarrow> Some seg) = Some seg1"
    "set_prev a None seg1 = Some seg2" "seg2 a = Some e2"
    "(case next (lruNode e2) of Some n \<Rightarrow> set_prev n (prev (lruNode e2)) seg2
      | None \<Rightarrow> Some seg2) = Some seg3"
    "set_next a None seg3 = Some seg'"
proof -
  note d = disconnectLinkedListNode_def
  from assms obtain e where e: "seg a = Some e"
    by (cases "seg a") (simp_all add: d)
  let ?s1 = "case prev (lruNode e) of Some p \<Rightarrow> set_next p (next (lruNode e)) seg
             | None \<Rightarrow> Some seg"
  from assms e obtain seg1 where s1: "?s1 = Some seg1"
    by (cases ?s1) (simp_all add: d)
  from assms e s1 obtain seg2 where s2: "set_prev a None seg1 = Some seg2"
    by (cases "set_prev a None seg1") (simp_all add: d)
  from assms e s1 s2 obtain e2 where e2: "seg2 a = Some e2"
    by (cases "seg2 a") (simp_all add: d)
  let ?s3 = "case next (lruNode e2) of Some n \<Rightarrow> set_prev n (prev (lruNode e2)) seg2
             | None \<Rightarrow> Some seg2"
  from assms e s1 s2 e2 obtain seg3 where s3: "?s3 = Some seg3"
    by (cases ?s3) (simp_all add: d)
  from assms e s1 s2 e2 s3 have s4: "set_next a None seg3 = Some seg'"
    by (simp add: d)
  from e s1 s2 e2 s3 s4 show thesis by (rule that)
qed

lemma disconnect_withoutLinks:
  assumes "disconnectLinkedListNode a seg = Some seg'"
  shows "map_option withoutLinks (seg' x) = map_option withoutLinks (seg x)"
  using assms
proof (cases rule: disconnect_steps)
  case (1 e seg1 seg2 e2 seg3)
  let ?E = "\<lambda>s. map_option withoutLinks (s x)"
  have "?E seg1 = ?E seg"
    using 1(2) by (cases "prev (lruNode e)") (auto dest: set_next_withoutLinks)
  moreover have "?E seg2 = ?E seg1"
    using 1(3) by (rule set_prev_withoutLinks)
  moreover have "?E seg3 = ?E seg2"
    using 1(5) by (cases "next (lruNode e2)") (auto dest: set_prev_withoutLinks)
  moreover have "?E seg' = ?E seg3"
    using 1(6) by (rule set_next_withoutLinks)
  ultimately show ?thesis by simp
qed

lemma disconnect_untouched:
  assumes "disconnectLinkedListNode a seg = Some seg'" and "seg a = Some e"
    and "prev (lruNode e) \<noteq> Some a"
    and "x \<noteq> a" and "prev (lruNode e) \<noteq> Some x" and "next (lruNode e) \<noteq> Some x"
  shows "seg' x = seg x"
  using assms(1)
proof (cases rule: disconnect_steps)
  case (1 e0 seg1 seg2 e2 seg3)
  from 1(1) assms(2) have [simp]: "e0 = e" by simp
  have a1: "seg1 x = seg x"
    using 1(2) assms(5) by (cases "prev (lruNode e)") (auto dest: set_next_untouched)
  have a2: "seg2 x = seg1 x"
    using 1(3) assms(4) [symmetric] by (rule set_prev_untouched)
  have "seg1 a = Some e"
    using 1(2) assms(2,3) by (cases "prev (lruNode e)") (auto dest: set_next_untouched)
  with 1(3,4) have n2: "next (lruNode e2) = next (lruNode e)"
    by (auto simp: set_prev_def)
  have a3: "seg3 x = seg2 x"
  proof (cases "next (lruNode e)")
    case None
    with 1(5) n2 show ?thesis by simp
  next
    case (Some n)
    with assms(6) have "n \<noteq> x" by simp
    moreover from 1(5) n2 Some have "set_prev n (prev (lruNode e2)) seg2 = Some seg3" by simp
    ultimately show ?thesis by (rule set_prev_untouched [rotated])
  qed
  have a4: "seg' x = seg3 x"
    using 1(6) assms(4) [symmetric] by (rule set_next_untouched)
  show ?thesis by (simp add: a1 a2 a3 a4)
qed

lemma freeTile_config:
  "freeTile t c\<lparr>buckets := bs\<rparr> = c\<lparr>buckets := bs\<rparr>"
  by (simp add: freeTile_def upd_bucket_def Let_def)

lemma fold_freeTile_config:
  "fold freeTile ts c\<lparr>buckets := bs\<rparr> = c\<lparr>buckets := bs\<rparr>"
  by (induction ts arbitrary: c) (simp_all add: freeTile_config)

lemma deallocate_config:
  assumes "deallocateCacheEntryImpl bi h a c = Inr c'"
  shows "c'\<lparr>buckets := bs\<rparr> = c\<lparr>buckets := bs\<rparr>"
proof -
  have u: "\<And>f d. upd_bucket bi f d\<lparr>buckets := bs\<rparr> = d\<lparr>buckets := bs\<rparr>"
    by (simp add: upd_bucket_def)
  from assms show ?thesis
    by (auto simp: deallocateCacheEntryImpl_def Let_def u fold_freeTile_config
             split: option.splits if_splits)
qed


lemma deallocate_frame:
  assumes d: "deallocateCacheEntryImpl bi h a c = Inr c'"
    and e: "segment (buckets c bi) a = Some e"
    and v: "nodeLinksValid (segment (buckets c bi)) a e"
  shows "\<And>x. x \<noteq> a \<Longrightarrow> map_option withoutLinks (segment (buckets c' bi) x)
                         = map_option withoutLinks (segment (buckets c bi) x)"
    and "\<And>x. x \<noteq> a \<Longrightarrow> prev (lruNode e) \<noteq> Some x \<Longrightarrow> next (lruNode e) \<noteq> Some x
           \<Longrightarrow> segment (buckets c' bi) x = segment (buckets c bi) x"
    and "\<And>p. prev (lruNode e) = Some p
           \<Longrightarrow> \<exists>pe. segment (buckets c' bi) p = Some pe \<and> next (lruNode pe) = next (lruNode e)"
    and "\<And>n. next (lruNode e) = Some n
           \<Longrightarrow> \<exists>ne. segment (buckets c' bi) n = Some ne \<and> prev (lruNode ne) \<noteq> Some a"
proof -
  let ?e0 = "if tileIndices e \<noteq> [] then e\<lparr>tileIndices := []\<rparr> else e"
  let ?seg = "(segment (buckets c bi))(a \<mapsto> ?e0)"
  from v have pa: "prev (lruNode e) \<noteq> Some a" and na: "next (lruNode e) \<noteq> Some a"
    and pl: "\<And>p. prev (lruNode e) = Some p \<Longrightarrow> segment (buckets c bi) p \<noteq> None"
    and nl: "\<And>n. next (lruNode e) = Some n \<Longrightarrow> segment (buckets c bi) n \<noteq> None"
    by (auto simp: nodeLinksValid_def split: option.splits)
  from deallocate_segment [OF d e] obtain seg' where
    dis: "disconnectLinkedListNode a ?seg = Some seg'"
    and seg: "segment (buckets c' bi) = seg'(a := None)" by blast
  have e0: "?seg a = Some ?e0" by simp
  show fr: "map_option withoutLinks (segment (buckets c' bi) x)
            = map_option withoutLinks (segment (buckets c bi) x)" if "x \<noteq> a" for x
    using disconnect_withoutLinks [OF dis, of x] that by (simp add: seg)
  show "segment (buckets c' bi) x = segment (buckets c bi) x"
    if "x \<noteq> a" "prev (lruNode e) \<noteq> Some x" "next (lruNode e) \<noteq> Some x" for x
    using disconnect_untouched [OF dis e0, of x] that pa by (simp add: seg)
  show "\<exists>pe. segment (buckets c' bi) p = Some pe \<and> next (lruNode pe) = next (lruNode e)"
    if p: "prev (lruNode e) = Some p" for p
  proof -
    from p pa have "p \<noteq> a" by auto
    from fr [OF this] pl [OF p] obtain pe where s: "segment (buckets c' bi) p = Some pe"
      by (cases "segment (buckets c' bi) p") auto
    then have "seg' p = Some pe" using \<open>p \<noteq> a\<close> by (simp add: seg)
    from disconnect_neighbours(2) [OF dis e0 _ _ _ this] p pa na
    have "next (lruNode pe) = next (lruNode e)" by simp
    with s show ?thesis by blast
  qed
  show "\<exists>ne. segment (buckets c' bi) n = Some ne \<and> prev (lruNode ne) \<noteq> Some a"
    if n: "next (lruNode e) = Some n" for n
  proof -
    from n na have "n \<noteq> a" by auto
    from fr [OF this] nl [OF n] obtain ne where s: "segment (buckets c' bi) n = Some ne"
      by (cases "segment (buckets c' bi) n") auto
    then have "seg' n = Some ne" using \<open>n \<noteq> a\<close> by (simp add: seg)
    from disconnect_neighbours(3) [OF dis e0 _ _ _ this] n pa na
    have "prev (lruNode ne) = None" by simp
    with s show ?thesis by simp
  qed
qed

lemma deallocate_other_bucket:
  assumes d: "deallocateCacheEntryImpl bi h a c = Inr c'" and j: "j \<noteq> bi"
  shows "buckets c' j = (buckets c j)\<lparr>freeTiles := freeTiles (buckets c' j)\<rparr>"
proof -
  from d obtain e where e: "segment (buckets c bi) a = Some e"
    by (auto simp: deallocateCacheEntryImpl_def split: option.splits)
  show ?thesis
    using deallocate_other_buckets [OF d j] deallocate_entriesMap [OF d, of j]
      deallocate_size_bucket [OF d e, of j] j
    by (intro CacheBucket.equality) simp_all
qed

lemma deallocate_tocFileSize:
  assumes "deallocateCacheEntryImpl bi h a c = Inr c'"
  shows "tocFileSize (buckets c' j) = tocFileSize (buckets c j)"
proof -
  have f: "\<And>ts d k. tocFileSize (buckets (fold freeTile ts d) k) = tocFileSize (buckets d k)"
    by (subst fold_freeTile_only_freeTiles) simp
  from assms show ?thesis
    by (auto simp: deallocateCacheEntryImpl_def Let_def upd_bucket_def f
             split: option.splits if_splits)
qed

lemma cacheWithTakenOverEntry_bucket5:
  "bucketState (buckets cacheWithTakenOverEntry 5) = eBucketStateOk"
  "entriesMap (buckets cacheWithTakenOverEntry 5) = [(0x105, 0), (0x205, 1)]"
  "segment (buckets cacheWithTakenOverEntry 5) 1 = Some entryWithTiles"
  "\<exists>e0. segment (buckets cacheWithTakenOverEntry 5) 0 = Some e0"
  "lruListFront (buckets cacheWithTakenOverEntry 5) = Some 0"
  "lruListBack (buckets cacheWithTakenOverEntry 5) = Some 1"
  by (simp_all add: cacheWithTakenOverEntry_def tileCache0_def createTileStorage_buckets
        cache0_def emptyBucket_def)

text \<open>
  C7. A locker destroyed in the status \<open>Cached\<close> changes nothing. A locker destroyed in
  the status \<open>MustCompute\<close> whose hash has no pair in the map of its bucket changes
  nothing either. When the entry is there, the destructor returns and the entry is
  deallocated:
  \<^item> the pair of its hash is erased from the map, the other pairs stay, in their order;
  \<^item> its header is destroyed; every other header of the bucket is kept with the same
    content, the links of its LRU node apart, and the headers that are not neighbours of
    the node are unchanged altogether;
  \<^item> its node is removed from the LRU list: the predecessor of the node is there and
    its \<open>next\<close> is the successor of the node, the successor is there and its \<open>prev\<close> is
    no longer the node, the back pointer is the predecessor of the node if it was the
    node and is unchanged otherwise, the front pointer is not the node and is unchanged
    if it was another node;
  \<^item> its tiles are freed: the free tiles of every bucket are those it had and the tiles
    of the entry that deallocation returns to that bucket;
  \<^item> nothing else changes: every other bucket is as it was, its free tiles apart, the
    bucket is in the state \<open>eBucketStateOk\<close>, the size of its file is the same, and so
    is the cache outside of its buckets.

  The bucket is in the state \<open>eBucketStateOk\<close> when the locker is dropped, and the links
  of the node can be followed. The size recorded for the bucket is the subject of C4.
\<close>

theorem C7_drop_releases_reservation:
  "(status_locker l = eCacheEntryStatusCached \<longrightarrow> CacheEntryLocker_destroy l c = Inr c)
   \<and> (status_locker l = eCacheEntryStatusMustCompute \<and> bucket l = Some bi
        \<and> bucketState (buckets c bi) = eBucketStateOk
        \<and> tryCacheLookupImpl (buckets c bi) (hash_locker l) = None
      \<longrightarrow> CacheEntryLocker_destroy l c = Inr c)
   \<and> (status_locker l = eCacheEntryStatusMustCompute \<and> bucket l = Some bi
        \<and> bucketState (buckets c bi) = eBucketStateOk
        \<and> tryCacheLookupImpl (buckets c bi) (hash_locker l) = Some a
        \<and> segment (buckets c bi) a = Some e
        \<and> nodeLinksValid (segment (buckets c bi)) a e
      \<longrightarrow> (\<exists>c'. CacheEntryLocker_destroy l c = Inr c'
             \<and> entriesMap (buckets c' bi)
                 = filter (\<lambda>p. fst p \<noteq> hash_locker l) (entriesMap (buckets c bi))
             \<and> segment (buckets c' bi) a = None
             \<and> (\<forall>x. x \<noteq> a \<longrightarrow> map_option withoutLinks (segment (buckets c' bi) x)
                                 = map_option withoutLinks (segment (buckets c bi) x))
             \<and> (\<forall>x. x \<noteq> a \<and> prev (lruNode e) \<noteq> Some x \<and> next (lruNode e) \<noteq> Some x
                    \<longrightarrow> segment (buckets c' bi) x = segment (buckets c bi) x)
             \<and> (\<forall>p. prev (lruNode e) = Some p
                    \<longrightarrow> (\<exists>pe. segment (buckets c' bi) p = Some pe
                              \<and> next (lruNode pe) = next (lruNode e)))
             \<and> (\<forall>n. next (lruNode e) = Some n
                    \<longrightarrow> (\<exists>ne. segment (buckets c' bi) n = Some ne
                              \<and> prev (lruNode ne) \<noteq> Some a))
             \<and> lruListBack (buckets c' bi)
                 = (if lruListBack (buckets c bi) = Some a then prev (lruNode e)
                    else lruListBack (buckets c bi))
             \<and> lruListFront (buckets c' bi) \<noteq> Some a
             \<and> (lruListFront (buckets c bi) \<noteq> Some a
                  \<longrightarrow> lruListFront (buckets c' bi) = lruListFront (buckets c bi))
             \<and> (\<forall>j. set (freeTiles (buckets c' j))
                      = set (freeTiles (buckets c j))
                          \<union> {t \<in> set (tileIndices e). tileOwnerOnFree t = j})
             \<and> (\<forall>j. j \<noteq> bi
                    \<longrightarrow> buckets c' j = (buckets c j)\<lparr>freeTiles := freeTiles (buckets c' j)\<rparr>)
             \<and> bucketState (buckets c' bi) = eBucketStateOk
             \<and> tocFileSize (buckets c' bi) = tocFileSize (buckets c bi)
             \<and> c'\<lparr>buckets := buckets c\<rparr> = c))"
proof (intro conjI impI)
  assume "status_locker l = eCacheEntryStatusCached"
  then show "CacheEntryLocker_destroy l c = Inr c"
    by (simp add: CacheEntryLocker_destroy_def)
next
  assume h: "status_locker l = eCacheEntryStatusMustCompute \<and> bucket l = Some bi
        \<and> bucketState (buckets c bi) = eBucketStateOk
        \<and> tryCacheLookupImpl (buckets c bi) (hash_locker l) = None"
  then obtain c1 where c1: "BucketStateHandler_enter bi c = Inr c1"
    by (simp add: BucketStateHandler_enter_def)
  have "tryCacheLookupImpl (buckets c1 bi) (hash_locker l) = None"
    using h by (simp add: tryCacheLookupImpl_def enter_fields(2) [OF c1])
  with h c1 show "CacheEntryLocker_destroy l c = Inr c"
    by (simp add: CacheEntryLocker_destroy_def exit_enter_id)
next
  assume h: "status_locker l = eCacheEntryStatusMustCompute \<and> bucket l = Some bi
        \<and> bucketState (buckets c bi) = eBucketStateOk
        \<and> tryCacheLookupImpl (buckets c bi) (hash_locker l) = Some a
        \<and> segment (buckets c bi) a = Some e
        \<and> nodeLinksValid (segment (buckets c bi)) a e"
  then have ok: "bucketState (buckets c bi) = eBucketStateOk" by blast
  let ?c1 = "upd_bucket bi (\<lambda>b. b\<lparr>bucketState := eBucketStateInconsistent\<rparr>) c"
  from ok have c1: "BucketStateHandler_enter bi c = Inr ?c1"
    by (simp add: BucketStateHandler_enter_def)
  note ef = enter_fields [OF c1]
  have look: "tryCacheLookupImpl (buckets ?c1 bi) (hash_locker l) = Some a"
    using h by (simp add: tryCacheLookupImpl_def ef(2))
  have e: "segment (buckets ?c1 bi) a = Some e"
    using h by (simp add: ef(1))
  have v: "nodeLinksValid (segment (buckets ?c1 bi)) a e"
    using h by (simp add: ef(1))
  from v have pa: "prev (lruNode e) \<noteq> Some a"
    by (auto simp: nodeLinksValid_def split: option.splits)
  have "\<exists>c2. deallocateCacheEntryImpl bi (hash_locker l) a ?c1 = Inr c2"
    by (rule deallocate_returns [OF e])
       (use v in \<open>auto simp: nodeLinksValid_def split: option.splits\<close>)
  then obtain c2 where d: "deallocateCacheEntryImpl bi (hash_locker l) a ?c1 = Inr c2" by blast
  let ?c' = "BucketStateHandler_exit bi c2"
  have r: "CacheEntryLocker_destroy l c = Inr ?c'"
    using h c1 look d by (simp add: CacheEntryLocker_destroy_def)
  note fr = deallocate_frame [OF d e v]
  have x1: "entriesMap (buckets ?c' bi)
              = filter (\<lambda>p. fst p \<noteq> hash_locker l) (entriesMap (buckets c bi))"
    by (simp add: deallocate_entriesMap [OF d] ef(2))
  have x2: "segment (buckets ?c' bi) a = None"
    using deallocate_released(2) [OF d e v] by simp
  have x3: "\<forall>x. x \<noteq> a \<longrightarrow> map_option withoutLinks (segment (buckets ?c' bi) x)
                                 = map_option withoutLinks (segment (buckets c bi) x)"
    using fr(1) by (simp add: ef(1))
  have x4: "\<forall>x. x \<noteq> a \<and> prev (lruNode e) \<noteq> Some x \<and> next (lruNode e) \<noteq> Some x
              \<longrightarrow> segment (buckets ?c' bi) x = segment (buckets c bi) x"
    using fr(2) by (simp add: ef(1))
  have x5: "\<forall>p. prev (lruNode e) = Some p
              \<longrightarrow> (\<exists>pe. segment (buckets ?c' bi) p = Some pe
                        \<and> next (lruNode pe) = next (lruNode e))"
    using fr(3) by simp
  have x6: "\<forall>n. next (lruNode e) = Some n
              \<longrightarrow> (\<exists>ne. segment (buckets ?c' bi) n = Some ne
                        \<and> prev (lruNode ne) \<noteq> Some a)"
    using fr(4) by simp
  have x7: "lruListBack (buckets ?c' bi)
              = (if lruListBack (buckets c bi) = Some a then prev (lruNode e)
                 else lruListBack (buckets c bi))"
    using deallocate_pointers(1) [OF d e] by (simp add: ef(5))
  have fp: "lruListFront (buckets ?c' bi)
              = (if lruListFront (buckets c bi) = Some a then prev (lruNode e)
                 else lruListFront (buckets c bi))"
    using deallocate_pointers(2) [OF d e] by (simp add: ef(4))
  have x8: "lruListFront (buckets ?c' bi) \<noteq> Some a"
    using fp pa by simp
  have x9: "lruListFront (buckets c bi) \<noteq> Some a
              \<longrightarrow> lruListFront (buckets ?c' bi) = lruListFront (buckets c bi)"
    using fp by simp
  have x10: "\<forall>j. set (freeTiles (buckets ?c' j))
                  = set (freeTiles (buckets c j))
                      \<union> {t \<in> set (tileIndices e). tileOwnerOnFree t = j}"
    by (simp add: deallocate_freeTiles [OF d e] ef(3))
  have x11: "\<forall>j. j \<noteq> bi
               \<longrightarrow> buckets ?c' j = (buckets c j)\<lparr>freeTiles := freeTiles (buckets ?c' j)\<rparr>"
  proof (intro allI impI)
    fix j assume j: "j \<noteq> bi"
    have "buckets ?c' j = buckets c2 j"
      using j by (simp add: BucketStateHandler_exit_def upd_bucket_def)
    also have "\<dots> = (buckets ?c1 j)\<lparr>freeTiles := freeTiles (buckets c2 j)\<rparr>"
      by (rule deallocate_other_bucket [OF d j])
    also have "buckets ?c1 j = buckets c j"
      using j by (simp add: upd_bucket_def)
    finally show "buckets ?c' j = (buckets c j)\<lparr>freeTiles := freeTiles (buckets ?c' j)\<rparr>"
      using j by (simp add: BucketStateHandler_exit_def upd_bucket_def)
  qed
  have x12: "bucketState (buckets ?c' bi) = eBucketStateOk" by simp
  have x13: "tocFileSize (buckets ?c' bi) = tocFileSize (buckets c bi)"
    using deallocate_tocFileSize [OF d, of bi]
    by (simp add: BucketStateHandler_exit_def upd_bucket_def)
  have x14: "?c'\<lparr>buckets := buckets c\<rparr> = c"
    using deallocate_config [OF d, of "buckets c"]
    by (simp add: BucketStateHandler_exit_def upd_bucket_def)
  show "\<exists>c'. CacheEntryLocker_destroy l c = Inr c'
             \<and> entriesMap (buckets c' bi)
                 = filter (\<lambda>p. fst p \<noteq> hash_locker l) (entriesMap (buckets c bi))
             \<and> segment (buckets c' bi) a = None
             \<and> (\<forall>x. x \<noteq> a \<longrightarrow> map_option withoutLinks (segment (buckets c' bi) x)
                                 = map_option withoutLinks (segment (buckets c bi) x))
             \<and> (\<forall>x. x \<noteq> a \<and> prev (lruNode e) \<noteq> Some x \<and> next (lruNode e) \<noteq> Some x
                    \<longrightarrow> segment (buckets c' bi) x = segment (buckets c bi) x)
             \<and> (\<forall>p. prev (lruNode e) = Some p
                    \<longrightarrow> (\<exists>pe. segment (buckets c' bi) p = Some pe
                              \<and> next (lruNode pe) = next (lruNode e)))
             \<and> (\<forall>n. next (lruNode e) = Some n
                    \<longrightarrow> (\<exists>ne. segment (buckets c' bi) n = Some ne
                              \<and> prev (lruNode ne) \<noteq> Some a))
             \<and> lruListBack (buckets c' bi)
                 = (if lruListBack (buckets c bi) = Some a then prev (lruNode e)
                    else lruListBack (buckets c bi))
             \<and> lruListFront (buckets c' bi) \<noteq> Some a
             \<and> (lruListFront (buckets c bi) \<noteq> Some a
                  \<longrightarrow> lruListFront (buckets c' bi) = lruListFront (buckets c bi))
             \<and> (\<forall>j. set (freeTiles (buckets c' j))
                      = set (freeTiles (buckets c j))
                          \<union> {t \<in> set (tileIndices e). tileOwnerOnFree t = j})
             \<and> (\<forall>j. j \<noteq> bi
                    \<longrightarrow> buckets c' j = (buckets c j)\<lparr>freeTiles := freeTiles (buckets c' j)\<rparr>)
             \<and> bucketState (buckets c' bi) = eBucketStateOk
             \<and> tocFileSize (buckets c' bi) = tocFileSize (buckets c bi)
             \<and> c'\<lparr>buckets := buckets c\<rparr> = c"
    by (rule exI [where x = ?c'])
       (intro conjI r x1 x2 x3 x4 x5 x6 x7 x8 x9 x10 x11 x12 x13 x14)
qed

theorem C7_drop_releases_reservation_witness:
  "status_locker lockerOfHash205 = eCacheEntryStatusMustCompute
   \<and> bucket lockerOfHash205 = Some 5
   \<and> bucketState (buckets cacheWithTakenOverEntry 5) = eBucketStateOk
   \<and> tryCacheLookupImpl (buckets cacheWithTakenOverEntry 5) (hash_locker lockerOfHash205) = Some 1
   \<and> segment (buckets cacheWithTakenOverEntry 5) 1 = Some entryWithTiles
   \<and> nodeLinksValid (segment (buckets cacheWithTakenOverEntry 5)) 1 entryWithTiles
   \<and> (\<exists>c'. CacheEntryLocker_destroy lockerOfHash205 cacheWithTakenOverEntry = Inr c'
          \<and> entriesMap (buckets c' 5) = [(0x105, 0)]
          \<and> segment (buckets c' 5) 1 = None
          \<and> map_option withoutLinks (segment (buckets c' 5) 0)
              = map_option withoutLinks (segment (buckets cacheWithTakenOverEntry 5) 0)
          \<and> (\<exists>pe. segment (buckets c' 5) 0 = Some pe \<and> next (lruNode pe) = None)
          \<and> lruListBack (buckets c' 5) = Some 0
          \<and> lruListFront (buckets c' 5) = Some 0
          \<and> encodeTileIndex 0 0 \<in> set (freeTiles (buckets c' 0))
          \<and> encodeTileIndex 1 0 \<in> set (freeTiles (buckets c' 1))
          \<and> buckets c' 7 = (buckets cacheWithTakenOverEntry 7)
                               \<lparr>freeTiles := freeTiles (buckets c' 7)\<rparr>
          \<and> set (freeTiles (buckets c' 7)) = set (freeTiles (buckets cacheWithTakenOverEntry 7))
          \<and> bucketState (buckets c' 5) = eBucketStateOk
          \<and> c'\<lparr>buckets := buckets cacheWithTakenOverEntry\<rparr> = cacheWithTakenOverEntry)
   \<and> status_locker reservedLocker = eCacheEntryStatusMustCompute
   \<and> bucket reservedLocker = Some 5
   \<and> tryCacheLookupImpl (buckets (cache0 0) 5) (hash_locker reservedLocker) = None
   \<and> bucketState (buckets (cache0 0) 5) = eBucketStateOk
   \<and> CacheEntryLocker_destroy reservedLocker (cache0 0) = Inr (cache0 0)
   \<and> status_locker (reservedLocker\<lparr>status_locker := eCacheEntryStatusCached\<rparr>)
       = eCacheEntryStatusCached
   \<and> CacheEntryLocker_destroy (reservedLocker\<lparr>status_locker := eCacheEntryStatusCached\<rparr>)
         reservedCache = Inr reservedCache"
proof -
  let ?c = cacheWithTakenOverEntry and ?t0 = "encodeTileIndex 0 0" and ?t1 = "encodeTileIndex 1 0"
  note b5 = cacheWithTakenOverEntry_bucket5
  have h1: "status_locker lockerOfHash205 = eCacheEntryStatusMustCompute"
    "bucket lockerOfHash205 = Some 5"
    by (simp_all add: lockerOfHash205_def)
  have h2: "tryCacheLookupImpl (buckets ?c 5) (hash_locker lockerOfHash205) = Some 1"
    by (simp add: tryCacheLookupImpl_def b5(2) lockerOfHash205_def)
  from b5(4) have h3: "nodeLinksValid (segment (buckets ?c 5)) 1 entryWithTiles"
    by (auto simp: nodeLinksValid_def entryWithTiles_def)
  have g1: "status_locker reservedLocker = eCacheEntryStatusMustCompute"
    "bucket reservedLocker = Some 5"
    by (simp_all add: reservedLocker_def)
  have g2: "tryCacheLookupImpl (buckets (cache0 0) 5) (hash_locker reservedLocker) = None"
    "bucketState (buckets (cache0 0) 5) = eBucketStateOk"
    by (simp_all add: cache0_def emptyBucket_def tryCacheLookupImpl_def)
  have g3: "status_locker (reservedLocker\<lparr>status_locker := eCacheEntryStatusCached\<rparr>)
            = eCacheEntryStatusCached" by simp
  have o0: "tileOwnerOnFree ?t0 = 0" using tileOwnerOnFree_encodeTileIndex [of 0] by simp
  have o1: "tileOwnerOnFree ?t1 = 1" using tileOwnerOnFree_encodeTileIndex [of 1] by simp
  have z: "prev (lruNode entryWithTiles) = Some 0" "next (lruNode entryWithTiles) = None"
    "tileIndices entryWithTiles = [?t0, ?t1]"
    by (simp_all add: entryWithTiles_def)
  note t = C7_drop_releases_reservation
  from t [where l = lockerOfHash205 and c = ?c and bi = 5 and a = 1 and e = entryWithTiles,
          THEN conjunct2, THEN conjunct2] h1 b5(1) h2 b5(3) h3
  obtain c' where r: "CacheEntryLocker_destroy lockerOfHash205 ?c = Inr c'"
    and x1: "entriesMap (buckets c' 5)
               = filter (\<lambda>p. fst p \<noteq> hash_locker lockerOfHash205) (entriesMap (buckets ?c 5))"
    and x2: "segment (buckets c' 5) 1 = None"
    and x3: "\<And>x. x \<noteq> 1 \<Longrightarrow> map_option withoutLinks (segment (buckets c' 5) x)
                                 = map_option withoutLinks (segment (buckets ?c 5) x)"
    and x5: "\<And>p. prev (lruNode entryWithTiles) = Some p
                    \<Longrightarrow> (\<exists>pe. segment (buckets c' 5) p = Some pe
                              \<and> next (lruNode pe) = next (lruNode entryWithTiles))"
    and x7: "lruListBack (buckets c' 5)
                 = (if lruListBack (buckets ?c 5) = Some 1 then prev (lruNode entryWithTiles)
                    else lruListBack (buckets ?c 5))"
    and x9: "lruListFront (buckets ?c 5) \<noteq> Some 1
                  \<Longrightarrow> lruListFront (buckets c' 5) = lruListFront (buckets ?c 5)"
    and x10: "\<And>j. set (freeTiles (buckets c' j))
                      = set (freeTiles (buckets ?c j))
                          \<union> {t \<in> set (tileIndices entryWithTiles). tileOwnerOnFree t = j}"
    and x11: "\<And>j. j \<noteq> 5
                    \<Longrightarrow> buckets c' j = (buckets ?c j)\<lparr>freeTiles := freeTiles (buckets c' j)\<rparr>"
    and x12: "bucketState (buckets c' 5) = eBucketStateOk"
    and x14: "c'\<lparr>buckets := buckets ?c\<rparr> = ?c"
    by blast
  have y1: "entriesMap (buckets c' 5) = [(0x105, 0)]"
    using x1 by (simp add: b5(2) lockerOfHash205_def)
  have y3: "map_option withoutLinks (segment (buckets c' 5) 0)
              = map_option withoutLinks (segment (buckets ?c 5) 0)"
    by (rule x3) simp
  have y5: "\<exists>pe. segment (buckets c' 5) 0 = Some pe \<and> next (lruNode pe) = None"
    using x5 [OF z(1)] z(2) by simp
  have y7: "lruListBack (buckets c' 5) = Some 0"
    using x7 by (simp add: b5(6) z(1))
  have y9: "lruListFront (buckets c' 5) = Some 0"
    using x9 by (simp add: b5(5))
  have y10: "?t0 \<in> set (freeTiles (buckets c' 0))" "?t1 \<in> set (freeTiles (buckets c' 1))"
    using o0 o1 by (simp_all add: x10 z(3))
  have y11: "buckets c' 7 = (buckets ?c 7)\<lparr>freeTiles := freeTiles (buckets c' 7)\<rparr>"
    by (rule x11) simp
  have y12: "set (freeTiles (buckets c' 7)) = set (freeTiles (buckets ?c 7))"
    using o0 o1 by (auto simp: x10 z(3))
  have a: "\<exists>c'. CacheEntryLocker_destroy lockerOfHash205 ?c = Inr c'
          \<and> entriesMap (buckets c' 5) = [(0x105, 0)]
          \<and> segment (buckets c' 5) 1 = None
          \<and> map_option withoutLinks (segment (buckets c' 5) 0)
              = map_option withoutLinks (segment (buckets ?c 5) 0)
          \<and> (\<exists>pe. segment (buckets c' 5) 0 = Some pe \<and> next (lruNode pe) = None)
          \<and> lruListBack (buckets c' 5) = Some 0
          \<and> lruListFront (buckets c' 5) = Some 0
          \<and> ?t0 \<in> set (freeTiles (buckets c' 0))
          \<and> ?t1 \<in> set (freeTiles (buckets c' 1))
          \<and> buckets c' 7 = (buckets ?c 7)\<lparr>freeTiles := freeTiles (buckets c' 7)\<rparr>
          \<and> set (freeTiles (buckets c' 7)) = set (freeTiles (buckets ?c 7))
          \<and> bucketState (buckets c' 5) = eBucketStateOk
          \<and> c'\<lparr>buckets := buckets ?c\<rparr> = ?c"
    using r y1 x2 y3 y5 y7 y9 y10 y11 y12 x12 x14 by (intro exI [where x = c'] conjI)
  from t [where l = reservedLocker and c = "cache0 0" and bi = 5,
          THEN conjunct2, THEN conjunct1] g1 g2
  have b: "CacheEntryLocker_destroy reservedLocker (cache0 0) = Inr (cache0 0)" by blast
  from t [where l = "reservedLocker\<lparr>status_locker := eCacheEntryStatusCached\<rparr>"
            and c = reservedCache, THEN conjunct1] g3
  have c: "CacheEntryLocker_destroy (reservedLocker\<lparr>status_locker := eCacheEntryStatusCached\<rparr>)
             reservedCache = Inr reservedCache" by blast
  show ?thesis using h1 b5(1) h2 b5(3) h3 a g1 g2 b g3 c by (intro conjI)
qed

section \<open>C8: the hash property\<close>

lemma set_prev_properties:
  "set_prev b p seg = Some seg' \<Longrightarrow> seg a = Some x \<Longrightarrow>
     \<exists>x'. seg' a = Some x' \<and> properties x' = properties x"
  by (auto simp: set_prev_def split: option.splits if_splits)

lemma set_next_properties:
  "set_next b n seg = Some seg' \<Longrightarrow> seg a = Some x \<Longrightarrow>
     \<exists>x'. seg' a = Some x' \<and> properties x' = properties x"
  by (auto simp: set_next_def split: option.splits if_splits)

lemma insertLinkedListNode_properties:
  assumes "insertLinkedListNode node p n seg = Some seg'" and "seg a = Some x"
  shows "\<exists>x'. seg' a = Some x' \<and> properties x' = properties x"
proof -
  from assms(1) obtain seg1 seg2 seg3 where
    s1: "(case p of Some pa \<Rightarrow> set_next pa (Some node) seg | None \<Rightarrow> Some seg) = Some seg1"
    and s2: "set_prev node p seg1 = Some seg2"
    and s3: "(case n of Some na \<Rightarrow> set_prev na (Some node) seg2 | None \<Rightarrow> Some seg2) = Some seg3"
    and s4: "set_next node n seg3 = Some seg'"
    by (auto simp: insertLinkedListNode_def split: option.splits)
  from s1 assms(2) obtain x1 where x1: "seg1 a = Some x1" "properties x1 = properties x"
    by (cases p) (auto dest: set_next_properties)
  from set_prev_properties [OF s2 x1(1)] x1(2)
  obtain x2 where x2: "seg2 a = Some x2" "properties x2 = properties x" by auto
  from s3 x2 obtain x3 where x3: "seg3 a = Some x3" "properties x3 = properties x"
    by (cases n) (auto dest: set_prev_properties)
  from set_next_properties [OF s4 x3(1)] x3(2) show ?thesis by auto
qed

lemma serializeCacheEntry_Created:
  assumes "serializeCacheEntry propAlloc n ple h entry = (eInsertRetCodeCreated, entry')"
  shows "\<exists>props. toMemorySegment ple n (properties entry) = Some props
           \<and> properties entry' = props(kNatronIPCPropertyHash \<mapsto> h)"
  using assms
  by (auto simp: serializeCacheEntry_def split: option.splits if_splits)

lemma insertInternal_hash_property:
  assumes p: "persistent c" and b: "bucket l = Some bi"
    and look: "tryCacheLookupImpl (buckets c bi) (hash_locker l) = Some a"
    and e: "segment (buckets c bi) a = Some e"
    and m: "computeThreadMagic e \<noteq> 0"
    and ins: "insertInternal propAlloc l c = Inr (eInsertRetCodeCreated, l', c')"
  shows "\<exists>e'. segment (buckets c' bi) a = Some e' \<and> status e' = eEntryStatusReady
           \<and> properties e' kNatronIPCPropertyHash = Some (hash_locker l)"
proof -
  from ins b obtain c1 where c1: "BucketStateHandler_enter bi c = Inr c1"
    by (auto simp: insertInternal_def split: sum.splits)
  have look1: "tryCacheLookupImpl (buckets c1 bi) (hash_locker l) = Some a"
    using look by (simp add: tryCacheLookupImpl_def enter_fields(2) [OF c1])
  have e1: "segment (buckets c1 bi) a = Some e"
    using e by (simp add: enter_fields(1) [OF c1])
  have p1: "persistent c1"
    using c1 p by (auto simp: BucketStateHandler_enter_def upd_bucket_def split: if_splits)
  obtain ret es where ser: "serializeCacheEntry propAlloc (tocFileSize (buckets c1 bi))
      (processLocalEntry l) (hash_locker l) e = (ret, es)" by (cases "serializeCacheEntry propAlloc (tocFileSize (buckets c1 bi))
      (processLocalEntry l) (hash_locker l) e")
  have ret: "ret = eInsertRetCodeCreated"
    using ins b c1 look1 e1 m p1 ser
    by (auto simp: insertInternal_def Let_def split: if_splits option.splits)
  from serializeCacheEntry_Created [OF ser [unfolded ret]]
  have ps: "properties es kNatronIPCPropertyHash = Some (hash_locker l)" by auto
  let ?e2 = "es\<lparr>lruNode := \<lparr>prev = None, next = None, hash = hash_locker l\<rparr>\<rparr>"
  let ?b1 = "(buckets c1 bi)\<lparr>size_bucket := size_bucket (buckets c1 bi) + size_entry es,
               segment := (segment (buckets c1 bi))(a \<mapsto> ?e2)\<rparr>"
  from ins b c1 look1 e1 m p1 ser ret obtain b2 e3 where
    b2: "(if lruListBack ?b1 = None
          then Some (?b1\<lparr>lruListFront := Some a, lruListBack := Some a\<rparr>)
          else (case insertLinkedListNode a (lruListBack ?b1) None (segment ?b1) of
                  None \<Rightarrow> None
                | Some seg \<Rightarrow> Some (?b1\<lparr>segment := seg, lruListBack := Some a\<rparr>))) = Some b2"
    and e3: "segment b2 a = Some e3"
    and c': "c' = BucketStateHandler_exit bi
               (c1\<lparr>buckets := (buckets c1)(bi :=
                  b2\<lparr>segment := (segment b2)(a \<mapsto>
                       e3\<lparr>computeThreadMagic := 0, status := eEntryStatusReady\<rparr>)\<rparr>)\<rparr>)"
    by (auto simp: insertInternal_def Let_def split: if_splits option.splits)
  have "properties e3 = properties es"
  proof (cases "lruListBack ?b1 = None")
    case True
    with b2 e3 show ?thesis by auto
  next
    case False
    with b2 obtain seg where
      i: "insertLinkedListNode a (lruListBack ?b1) None (segment ?b1) = Some seg"
      and "b2 = ?b1\<lparr>segment := seg, lruListBack := Some a\<rparr>"
      by (auto split: option.splits)
    with e3 have "seg a = Some e3" by simp
    moreover have "segment ?b1 a = Some ?e2" by simp
    ultimately show ?thesis
      using insertLinkedListNode_properties [OF i, of a ?e2] by simp
  qed
  with ps c' show ?thesis by simp
qed


lemma deserializeEntry_bad_hash:
  "properties e kNatronIPCPropertyHash \<noteq> Some h \<Longrightarrow>
     deserializeEntry n e ple h w = eShmEntryReadRetCodeDeserializationFailed"
  by (auto simp: deserializeEntry_def split: option.splits)

lemma readFromSharedMemoryEntryImpl_bad_hash:
  "segment b a = Some e \<Longrightarrow> properties e kNatronIPCPropertyHash \<noteq> Some h \<Longrightarrow>
     readFromSharedMemoryEntryImpl True a ple h w b
       = Inr (eShmEntryReadRetCodeDeserializationFailed, b)"
  by (simp add: readFromSharedMemoryEntryImpl_def deserializeEntry_bad_hash)

lemma buckets_update_same [simp]: "c\<lparr>buckets := (buckets c)(bi := buckets c bi)\<rparr> = c"
  by simp


text \<open>
  C8. In the persistent cache, a serialization that succeeds leaves the properties that
  the payload wrote with the hash property set last to the hash of the entry, and an
  insertion that makes the entry ready leaves that property in the header. On a lookup of
  a ready entry whose hash property is absent or differs from the hash looked up,
  deserialization reports \<open>DeserializationFailed\<close>; under the read lock the lookup
  reports the entry as not found and changes nothing, and under the write lock it
  deallocates the entry. In both cases the status of the locker is \<open>MustCompute\<close>, not
  \<open>Cached\<close>. (Under the write lock the links of the node can be followed.)
\<close>

theorem C8_hash_property_written_and_checked:
  "(serializeCacheEntry propAlloc n ple h entry = (eInsertRetCodeCreated, entry')
      \<longrightarrow> (\<exists>props. toMemorySegment ple n (properties entry) = Some props
             \<and> properties entry' = props(kNatronIPCPropertyHash \<mapsto> h)))
   \<and> (persistent c \<and> bucket l = Some bi
        \<and> tryCacheLookupImpl (buckets c bi) (hash_locker l) = Some a
        \<and> segment (buckets c bi) a = Some e \<and> computeThreadMagic e \<noteq> 0
        \<and> insertInternal propAlloc l c = Inr (eInsertRetCodeCreated, l', c')
      \<longrightarrow> (\<exists>e'. segment (buckets c' bi) a = Some e' \<and> status e' = eEntryStatusReady
             \<and> properties e' kNatronIPCPropertyHash = Some (hash_locker l)))
   \<and> (properties e kNatronIPCPropertyHash \<noteq> Some h
      \<longrightarrow> deserializeEntry n e ple h hasWriteRights
            = eShmEntryReadRetCodeDeserializationFailed)
   \<and> (persistent c \<and> bucket l = Some bi
        \<and> tryCacheLookupImpl (buckets c bi) (hash_locker l) = Some a
        \<and> segment (buckets c bi) a = Some e \<and> status e = eEntryStatusReady
        \<and> properties e kNatronIPCPropertyHash \<noteq> Some (hash_locker l)
      \<longrightarrow> lookupAndSetStatusInternal thread False removeIfOOM timeSpent timeout l c
            = Inr (eLookUpRetCodeNotFound, l\<lparr>status_locker := eCacheEntryStatusMustCompute\<rparr>, c)
          \<and> (nodeLinksValid (segment (buckets c bi)) a e
             \<longrightarrow> (\<exists>c'. lookupAndSetStatusInternal thread True removeIfOOM timeSpent timeout l c
                        = Inr (eLookUpRetCodeNotFound,
                               l\<lparr>status_locker := eCacheEntryStatusMustCompute\<rparr>, c')
                    \<and> tryCacheLookupImpl (buckets c' bi) (hash_locker l) = None
                    \<and> segment (buckets c' bi) a = None)))"
proof (intro conjI impI)
  assume "serializeCacheEntry propAlloc n ple h entry = (eInsertRetCodeCreated, entry')"
  then show "\<exists>props. toMemorySegment ple n (properties entry) = Some props
             \<and> properties entry' = props(kNatronIPCPropertyHash \<mapsto> h)"
    by (rule serializeCacheEntry_Created)
next
  assume "persistent c \<and> bucket l = Some bi
        \<and> tryCacheLookupImpl (buckets c bi) (hash_locker l) = Some a
        \<and> segment (buckets c bi) a = Some e \<and> computeThreadMagic e \<noteq> 0
        \<and> insertInternal propAlloc l c = Inr (eInsertRetCodeCreated, l', c')"
  then show "\<exists>e'. segment (buckets c' bi) a = Some e' \<and> status e' = eEntryStatusReady
             \<and> properties e' kNatronIPCPropertyHash = Some (hash_locker l)"
    using insertInternal_hash_property by blast
next
  assume "properties e kNatronIPCPropertyHash \<noteq> Some h"
  then show "deserializeEntry n e ple h hasWriteRights = eShmEntryReadRetCodeDeserializationFailed"
    by (rule deserializeEntry_bad_hash)
next
  assume h: "persistent c \<and> bucket l = Some bi
        \<and> tryCacheLookupImpl (buckets c bi) (hash_locker l) = Some a
        \<and> segment (buckets c bi) a = Some e \<and> status e = eEntryStatusReady
        \<and> properties e kNatronIPCPropertyHash \<noteq> Some (hash_locker l)"
  then have r: "\<And>w. readFromSharedMemoryEntryImpl True a (processLocalEntry l) (hash_locker l) w
                   (buckets c bi)
                 = Inr (eShmEntryReadRetCodeDeserializationFailed, buckets c bi)"
    by (simp add: readFromSharedMemoryEntryImpl_bad_hash)
  show "lookupAndSetStatusInternal thread False removeIfOOM timeSpent timeout l c
            = Inr (eLookUpRetCodeNotFound, l\<lparr>status_locker := eCacheEntryStatusMustCompute\<rparr>, c)"
    using h by (simp add: lookupAndSetStatusInternal_def r Let_def)
  show "\<exists>c'. lookupAndSetStatusInternal thread True removeIfOOM timeSpent timeout l c
                        = Inr (eLookUpRetCodeNotFound,
                               l\<lparr>status_locker := eCacheEntryStatusMustCompute\<rparr>, c')
                    \<and> tryCacheLookupImpl (buckets c' bi) (hash_locker l) = None
                    \<and> segment (buckets c' bi) a = None"
    if v: "nodeLinksValid (segment (buckets c bi)) a e"
  proof -
    from h have e: "segment (buckets c bi) a = Some e" by simp
    have "\<exists>c2. deallocateCacheEntryImpl bi (hash_locker l) a c = Inr c2"
      by (rule deallocate_returns [OF e])
         (use v in \<open>auto simp: nodeLinksValid_def split: option.splits\<close>)
    then obtain c2 where d: "deallocateCacheEntryImpl bi (hash_locker l) a c = Inr c2" by blast
    have "lookupAndSetStatusInternal thread True removeIfOOM timeSpent timeout l c
            = Inr (eLookUpRetCodeNotFound, l\<lparr>status_locker := eCacheEntryStatusMustCompute\<rparr>, c2)"
      using h d by (simp add: lookupAndSetStatusInternal_def r Let_def)
    with deallocate_released(1,2) [OF d e v] show ?thesis by blast
  qed
qed



lemma cacheWithOneEntry_entry:
  "segment (buckets cacheWithOneEntry 5) 0 = Some readyEntryWithoutHash"
  by (simp add: cacheWithOneEntry_def readyEntryWithoutHash_def)

theorem C8_hash_property_written_and_checked_witness:
  "serializeCacheEntry (\<lambda>n. True) 0 (payload 0x105 100) 0x105 reservedEntry
     = (eInsertRetCodeCreated,
        reservedEntry\<lparr>properties := [kNatronIPCPropertyHash \<mapsto> 0x105]\<rparr>)
   \<and> (\<exists>l' c' e'. insertInternal (\<lambda>n. True) reservedLocker reservedCache
                    = Inr (eInsertRetCodeCreated, l', c')
          \<and> segment (buckets c' 5) 0 = Some e' \<and> status e' = eEntryStatusReady
          \<and> properties e' kNatronIPCPropertyHash = Some 0x105)
   \<and> properties readyEntryWithoutHash kNatronIPCPropertyHash = None
   \<and> deserializeEntry 0 readyEntryWithoutHash (payload 5 100) 5 True
       = eShmEntryReadRetCodeDeserializationFailed
   \<and> lookupAndSetStatusInternal 1 False False 0 0 lockerOfHash5 cacheWithOneEntry
       = Inr (eLookUpRetCodeNotFound, lockerOfHash5, cacheWithOneEntry)
   \<and> (\<exists>c'. lookupAndSetStatusInternal 1 True False 0 0 lockerOfHash5 cacheWithOneEntry
              = Inr (eLookUpRetCodeNotFound, lockerOfHash5, c')
          \<and> tryCacheLookupImpl (buckets c' 5) 5 = None
          \<and> segment (buckets c' 5) 0 = None)"
proof -
  note t = C8_hash_property_written_and_checked
  have s: "serializeCacheEntry (\<lambda>n. True) 0 (payload 0x105 100) 0x105 reservedEntry
     = (eInsertRetCodeCreated,
        reservedEntry\<lparr>properties := [kNatronIPCPropertyHash \<mapsto> 0x105]\<rparr>)"
    by (simp add: serializeCacheEntry_def payload_def reservedEntry_def newEntryHeader_def)
  have "\<exists>l' c'. insertInternal (\<lambda>n. True) reservedLocker reservedCache
                  = Inr (eInsertRetCodeCreated, l', c')"
    by (simp add: reservedLocker_def reservedCache_def reservedEntry_def model_defs Let_def)
  then obtain l' c' where i: "insertInternal (\<lambda>n. True) reservedLocker reservedCache
                  = Inr (eInsertRetCodeCreated, l', c')" by blast
  have h2: "persistent reservedCache" "bucket reservedLocker = Some 5"
    "tryCacheLookupImpl (buckets reservedCache 5) (hash_locker reservedLocker) = Some 0"
    "segment (buckets reservedCache 5) 0 = Some reservedEntry"
    "computeThreadMagic reservedEntry \<noteq> 0" "hash_locker reservedLocker = 0x105"
    by (simp_all add: reservedCache_def reservedLocker_def reservedEntry_def cache0_def
          emptyBucket_def tryCacheLookupImpl_def newEntryHeader_def)
  from t [where c = reservedCache and l = reservedLocker and bi = 5 and a = 0
            and e = reservedEntry and propAlloc = "\<lambda>n. True" and l' = l' and c' = c']
    h2 i
  have b: "\<exists>e'. segment (buckets c' 5) 0 = Some e' \<and> status e' = eEntryStatusReady
          \<and> properties e' kNatronIPCPropertyHash = Some 0x105"
    by simp
  have p: "properties readyEntryWithoutHash kNatronIPCPropertyHash = None"
    by (simp add: readyEntryWithoutHash_def newEntryHeader_def)
  have h4: "persistent cacheWithOneEntry" "bucket lockerOfHash5 = Some 5"
    "tryCacheLookupImpl (buckets cacheWithOneEntry 5) (hash_locker lockerOfHash5) = Some 0"
    "status readyEntryWithoutHash = eEntryStatusReady"
    "properties readyEntryWithoutHash kNatronIPCPropertyHash \<noteq> Some (hash_locker lockerOfHash5)"
    "nodeLinksValid (segment (buckets cacheWithOneEntry 5)) 0 readyEntryWithoutHash"
    "lockerOfHash5\<lparr>status_locker := eCacheEntryStatusMustCompute\<rparr> = lockerOfHash5"
    "hash_locker lockerOfHash5 = 5"
    by (simp_all add: cacheWithOneEntry_def cache0_def lockerOfHash5_def tryCacheLookupImpl_def
          readyEntryWithoutHash_def newEntryHeader_def nodeLinksValid_def)
  from t [where e = readyEntryWithoutHash and h = 5 and n = 0 and ple = "payload 5 100"
            and hasWriteRights = True] p
  have c: "deserializeEntry 0 readyEntryWithoutHash (payload 5 100) 5 True
       = eShmEntryReadRetCodeDeserializationFailed" by simp
  from t [where c = cacheWithOneEntry and l = lockerOfHash5 and bi = 5 and a = 0
            and e = readyEntryWithoutHash and thread = 1 and removeIfOOM = False
            and timeSpent = 0 and timeout = 0]
    h4 cacheWithOneEntry_entry
  have d: "lookupAndSetStatusInternal 1 False False 0 0 lockerOfHash5 cacheWithOneEntry
       = Inr (eLookUpRetCodeNotFound, lockerOfHash5, cacheWithOneEntry)"
    and e: "\<exists>c'. lookupAndSetStatusInternal 1 True False 0 0 lockerOfHash5 cacheWithOneEntry
              = Inr (eLookUpRetCodeNotFound, lockerOfHash5, c')
          \<and> tryCacheLookupImpl (buckets c' 5) 5 = None
          \<and> segment (buckets c' 5) 0 = None"
    by simp_all
  show ?thesis using s i b p c d e by blast
qed

section \<open>C9: one caller computes, the others wait\<close>

lemma locker_bucket_same: "bucket l = Some bi \<Longrightarrow> l\<lparr>bucket := Some bi\<rparr> = l"
  by (cases l) simp

lemma upd_bucket_segment_same:
  "segment (buckets c bi) a = Some e \<Longrightarrow>
     upd_bucket bi (\<lambda>b. b\<lparr>segment := (segment b)(a \<mapsto> e)\<rparr>) c = c"
proof -
  assume "segment (buckets c bi) a = Some e"
  then have "(segment (buckets c bi))(a \<mapsto> e) = segment (buckets c bi)"
    by (rule map_upd_triv)
  then show ?thesis by (simp add: upd_bucket_def)
qed

lemma status_same: "status e = s \<Longrightarrow> e\<lparr>status := s\<rparr> = e"
  by (cases e) simp

lemma poll_pending:
  assumes bl: "bucket l = None \<or> bucket l = Some bi"
    and bi: "bi = getBucketCacheBucketIndex (hash_locker l)"
    and look: "tryCacheLookupImpl (buckets c bi) (hash_locker l) = Some a"
    and e: "segment (buckets c bi) a = Some e"
    and st: "status e = eEntryStatusPending"
    and other: "computeThreadMagic e \<noteq> thread"
    and t: "timeout = 0 \<or> timeSpent < timeout"
  shows "lookupAndSetStatus thread alloc timeSpent timeout l c
         = Inr (l\<lparr>bucket := Some bi, status_locker := eCacheEntryStatusComputationPending\<rparr>, c)"
  using bl
proof
  assume "bucket l = None"
  with bi look e st other t show ?thesis
    by (simp add: lookupAndSetStatus_def lookupAndSetStatusInternal_def Let_def)
next
  assume b: "bucket l = Some bi"
  with bi look e st other t
  have "lookupAndSetStatus thread alloc timeSpent timeout l c
        = Inr (l\<lparr>status_locker := eCacheEntryStatusComputationPending\<rparr>, c)"
    by (simp add: lookupAndSetStatus_def lookupAndSetStatusInternal_def Let_def)
  then show ?thesis by (simp add: locker_bucket_same [OF b])
qed

lemma poll_takeover:
  assumes bl: "bucket l = None \<or> bucket l = Some bi"
    and bi: "bi = getBucketCacheBucketIndex (hash_locker l)"
    and look: "tryCacheLookupImpl (buckets c bi) (hash_locker l) = Some a"
    and e: "segment (buckets c bi) a = Some e"
    and st: "status e = eEntryStatusPending"
    and t: "timeout \<noteq> 0" "timeout \<le> timeSpent"
  shows "lookupAndSetStatus thread alloc timeSpent timeout l c
         = Inr (l\<lparr>bucket := Some bi, status_locker := eCacheEntryStatusMustCompute\<rparr>, c)"
proof -
  let ?l = "l\<lparr>bucket := Some bi, status_locker := eCacheEntryStatusMustCompute\<rparr>"
  have nt: "\<not> timeSpent < timeout" using t by simp
  have same: "upd_bucket bi
               (\<lambda>b. b\<lparr>segment := (segment b)(a \<mapsto> e\<lparr>status := eEntryStatusPending\<rparr>)\<rparr>) c = c"
    using upd_bucket_segment_same [OF e] by (simp add: status_same [OF st])
  have rd: "lookupAndSetStatusInternal thread False False timeSpent timeout ?l c
            = Inr (eLookUpRetCodeNotFound, ?l, c)"
    using look e st t(1) nt by (simp add: lookupAndSetStatusInternal_def Let_def)
  have wr: "lookupAndSetStatusInternal thread True False timeSpent timeout ?l c
            = Inr (eLookUpRetCodeFound, ?l, c)"
    using look e st t(1) nt by (simp add: lookupAndSetStatusInternal_def Let_def same)
  have lp: "lookupAndCreate_loop thread False timeSpent timeout 0 ?l c = Inr (True, False, ?l, c)"
    using wr by (simp add: maxAttempts_def)
  have cr: "lookupAndCreate thread alloc False timeSpent timeout ?l c
            = Inr (eLookupAndCreateRetCodeCreated, False, ?l, c)"
    using lp by (simp add: lookupAndCreate_def)
  have ll: "lookupAndSetStatus_loop thread alloc 0 False timeSpent timeout ?l c = Inr (?l, c)"
    using cr by simp
  have int: "\<And>l0. lookupAndSetStatusInternal thread False False timeSpent timeout l0 c
               = lookupAndSetStatusInternal thread False False timeSpent timeout
                   (l0\<lparr>status_locker := eCacheEntryStatusMustCompute\<rparr>) c"
    by (simp add: lookupAndSetStatusInternal_def Let_def)
  from bl show ?thesis
  proof
    assume b: "bucket l = None"
    have "lookupAndSetStatusInternal thread False False timeSpent timeout
            (l\<lparr>bucket := Some bi\<rparr>) c = Inr (eLookUpRetCodeNotFound, ?l, c)"
      using rd by (subst int) simp
    with b bi ll show ?thesis by (simp add: lookupAndSetStatus_def Let_def)
  next
    assume b: "bucket l = Some bi"
    have "lookupAndSetStatusInternal thread False False timeSpent timeout l c
          = Inr (eLookUpRetCodeNotFound, ?l, c)"
      using rd by (subst int) (simp add: locker_bucket_same [OF b])
    with b bi ll show ?thesis by (simp add: lookupAndSetStatus_def Let_def)
  qed
qed


lemma deserializeEntry_Ok:
  assumes "properties e kNatronIPCPropertyHash = Some h"
    and "fromMemorySegment ple n False (properties e) = Returns eFromMemorySegmentRetCodeOk"
    and "getHashKeyForced ple (properties e) = h"
  shows "deserializeEntry n e ple h False = eShmEntryReadRetCodeOk"
  using assms by (simp add: deserializeEntry_def)

lemma get_cached:
  assumes bl: "bucket l = None \<or> bucket l = Some bi"
    and bi: "bi = getBucketCacheBucketIndex (hash_locker l)"
    and look: "tryCacheLookupImpl (buckets c bi) (hash_locker l) = Some a"
    and e: "segment (buckets c bi) a = Some e"
    and st: "status e = eEntryStatusReady"
    and bk: "lruListBack (buckets c bi) = Some a"
    and des: "persistent c \<Longrightarrow>
                deserializeEntry (tocFileSize (buckets c bi)) e (processLocalEntry l)
                  (hash_locker l) False = eShmEntryReadRetCodeOk"
  shows "\<exists>l'. lookupAndSetStatus thread alloc timeSpent timeout l c = Inr (l', c)
           \<and> status_locker l' = eCacheEntryStatusCached"
proof -
  have rd: "readFromSharedMemoryEntryImpl (persistent c) a (processLocalEntry l)
              (hash_locker l) False (buckets c bi) = Inr (eShmEntryReadRetCodeOk, buckets c bi)"
    using e bk des by (simp add: readFromSharedMemoryEntryImpl_def Let_def)
  have int: "\<And>l0. bucket l0 = Some bi \<Longrightarrow> hash_locker l0 = hash_locker l \<Longrightarrow>
               processLocalEntry l0 = processLocalEntry l \<Longrightarrow>
               \<exists>l'. lookupAndSetStatusInternal thread False False timeSpent timeout l0 c
                      = Inr (eLookUpRetCodeFound, l', c)
                    \<and> status_locker l' = eCacheEntryStatusCached"
    using look e st rd by (simp add: lookupAndSetStatusInternal_def Let_def)
  from bl show ?thesis
  proof
    assume b: "bucket l = None"
    from int [of "l\<lparr>bucket := Some bi\<rparr>"] obtain l' where
      "lookupAndSetStatusInternal thread False False timeSpent timeout (l\<lparr>bucket := Some bi\<rparr>) c
         = Inr (eLookUpRetCodeFound, l', c)" "status_locker l' = eCacheEntryStatusCached"
      by auto
    with b bi show ?thesis by (simp add: lookupAndSetStatus_def Let_def)
  next
    assume b: "bucket l = Some bi"
    from int [of l] b obtain l' where
      "lookupAndSetStatusInternal thread False False timeSpent timeout l c
         = Inr (eLookUpRetCodeFound, l', c)" "status_locker l' = eCacheEntryStatusCached"
      by auto
    with b bi show ?thesis by (simp add: lookupAndSetStatus_def Let_def)
  qed
qed

lemma insertLinkedListNode_present:
  assumes "insertLinkedListNode node p n seg = Some seg'"
  shows "\<exists>x. seg' node = Some x"
  using assms
  by (auto simp: insertLinkedListNode_def set_next_def split: option.splits if_splits)

lemma insertInternal_ready:
  assumes b: "bucket l = Some bi"
    and look: "tryCacheLookupImpl (buckets c bi) (hash_locker l) = Some a"
    and e: "segment (buckets c bi) a = Some e"
    and m: "computeThreadMagic e \<noteq> 0"
    and ins: "insertInternal propAlloc l c = Inr (eInsertRetCodeCreated, l', c')"
  shows "\<exists>e'. segment (buckets c' bi) a = Some e' \<and> status e' = eEntryStatusReady
           \<and> computeThreadMagic e' = 0
           \<and> lruListBack (buckets c' bi) = Some a
           \<and> entriesMap (buckets c' bi) = entriesMap (buckets c bi)
           \<and> tocFileSize (buckets c' bi) = tocFileSize (buckets c bi)
           \<and> persistent c' = persistent c
           \<and> status_locker l' = eCacheEntryStatusCached"
proof -
  from ins b obtain c1 where c1: "BucketStateHandler_enter bi c = Inr c1"
    by (auto simp: insertInternal_def split: sum.splits)
  have look1: "tryCacheLookupImpl (buckets c1 bi) (hash_locker l) = Some a"
    using look by (simp add: tryCacheLookupImpl_def enter_fields(2) [OF c1])
  have e1: "segment (buckets c1 bi) a = Some e"
    using e by (simp add: enter_fields(1) [OF c1])
  have p1: "persistent c1 = persistent c"
    using c1 by (auto simp: BucketStateHandler_enter_def upd_bucket_def split: if_splits)
  have em1: "entriesMap (buckets c1 bi) = entriesMap (buckets c bi)"
    by (simp add: enter_fields(2) [OF c1])
  have tf1: "tocFileSize (buckets c1 bi) = tocFileSize (buckets c bi)"
    using c1 by (auto simp: BucketStateHandler_enter_def upd_bucket_def split: if_splits)
  obtain ret es where ser:
    "(if persistent c1
      then serializeCacheEntry propAlloc (tocFileSize (buckets c1 bi)) (processLocalEntry l)
             (hash_locker l) e
      else (eInsertRetCodeCreated, e)) = (ret, es)"
    by (cases "(if persistent c1
      then serializeCacheEntry propAlloc (tocFileSize (buckets c1 bi)) (processLocalEntry l)
             (hash_locker l) e
      else (eInsertRetCodeCreated, e))")
  have ret: "ret = eInsertRetCodeCreated"
    using ins b c1 look1 e1 m ser
    by (auto simp: insertInternal_def Let_def split: if_splits option.splits)
  let ?e2 = "es\<lparr>lruNode := \<lparr>prev = None, next = None, hash = hash_locker l\<rparr>\<rparr>"
  let ?b1 = "(buckets c1 bi)\<lparr>size_bucket := size_bucket (buckets c1 bi) + size_entry es,
               segment := (segment (buckets c1 bi))(a \<mapsto> ?e2)\<rparr>"
  from ins b c1 look1 e1 m ser ret obtain b2 e3 where
    b2: "(if lruListBack ?b1 = None
          then Some (?b1\<lparr>lruListFront := Some a, lruListBack := Some a\<rparr>)
          else (case insertLinkedListNode a (lruListBack ?b1) None (segment ?b1) of
                  None \<Rightarrow> None
                | Some seg \<Rightarrow> Some (?b1\<lparr>segment := seg, lruListBack := Some a\<rparr>))) = Some b2"
    and e3: "segment b2 a = Some e3"
    and c': "c' = BucketStateHandler_exit bi
               (c1\<lparr>buckets := (buckets c1)(bi :=
                  b2\<lparr>segment := (segment b2)(a \<mapsto>
                       e3\<lparr>computeThreadMagic := 0, status := eEntryStatusReady\<rparr>)\<rparr>)\<rparr>)"
    and l': "l' = l\<lparr>status_locker := eCacheEntryStatusCached\<rparr>"
    by (auto simp: insertInternal_def Let_def split: if_splits option.splits)
  have f: "lruListBack b2 = Some a \<and> entriesMap b2 = entriesMap (buckets c1 bi)
           \<and> tocFileSize b2 = tocFileSize (buckets c1 bi)"
  proof (cases "lruListBack ?b1 = None")
    case True
    with b2 show ?thesis by auto
  next
    case False
    with b2 show ?thesis by (auto split: option.splits)
  qed
  with c' l' em1 tf1 p1 show ?thesis
    by (simp add: BucketStateHandler_exit_def upd_bucket_def)
qed


lemma first_get_reserves:
  assumes bi: "bi = getBucketCacheBucketIndex (getHashKey entry)"
    and ok: "bucketState (buckets c bi) = eBucketStateOk"
    and look: "tryCacheLookupImpl (buckets c bi) (getHashKey entry) = None"
    and al: "alloc (tocFileSize (buckets c bi)) = Some p"
  shows "\<exists>l c1 e. Cache_get thread alloc entry c = Inr (l, c1)
           \<and> status_locker l = eCacheEntryStatusMustCompute
           \<and> tryCacheLookupImpl (buckets c1 bi) (getHashKey entry) = Some p
           \<and> segment (buckets c1 bi) p = Some e
           \<and> status e = eEntryStatusPending \<and> computeThreadMagic e = thread"
proof -
  let ?l = "\<lparr>processLocalEntry = entry, hash_locker = getHashKey entry, bucket = Some bi,
             status_locker = eCacheEntryStatusMustCompute\<rparr>"
  have rd: "\<And>w r. lookupAndSetStatusInternal thread w r 0 0 ?l c
                    = Inr (eLookUpRetCodeNotFound, ?l, c)"
    using look by (simp add: lookupAndSetStatusInternal_def Let_def)
  have lp: "lookupAndCreate_loop thread False 0 0 0 ?l c = Inr (False, False, ?l, c)"
    by (simp add: rd)
  obtain c1 where en: "BucketStateHandler_enter bi c = Inr c1"
    using ok by (simp add: BucketStateHandler_enter_def)
  have al1: "alloc (tocFileSize (buckets c1 bi)) = Some p"
    using al en by (auto simp: BucketStateHandler_enter_def upd_bucket_def split: if_splits)
  have no: "map_of (entriesMap (buckets c1 bi)) (getHashKey entry) = None"
    using look by (simp add: tryCacheLookupImpl_def enter_fields(2) [OF en])
  let ?e = "newEntryHeader
              \<lparr>nonPersistentEntry := (if persistent c1 then None else Some entry),
               size_entry := getMetadataSize entry,
               pluginID := getHolderPluginID entry,
               status := eEntryStatusPending,
               computeThreadMagic := thread\<rparr>"
  define c2 where "c2 = BucketStateHandler_exit bi
                          (upd_bucket bi
                             (\<lambda>b. b\<lparr>segment := (segment b)(p \<mapsto> ?e),
                                    entriesMap :=
                                      (if map_of (entriesMap b) (getHashKey entry) = None
                                       then entriesMap b @ [(getHashKey entry, p)]
                                       else entriesMap b)\<rparr>) c1)"
  have cr: "lookupAndCreate thread alloc False 0 0 ?l c
            = Inr (eLookupAndCreateRetCodeCreated, False, ?l, c2)"
    using en al1 no by (simp add: lookupAndCreate_def rd Let_def c2_def cong: if_cong)
  have lk: "tryCacheLookupImpl (buckets c2 bi) (getHashKey entry) = Some p"
    using no
    by (simp add: c2_def BucketStateHandler_exit_def upd_bucket_def tryCacheLookupImpl_def
          map_add_def)
  have sg: "\<exists>e. segment (buckets c2 bi) p = Some e
              \<and> status e = eEntryStatusPending \<and> computeThreadMagic e = thread"
    by (simp add: c2_def BucketStateHandler_exit_def upd_bucket_def)
  have ll: "lookupAndSetStatus_loop thread alloc 0 False 0 0 ?l c = Inr (?l, c2)"
    using cr by simp
  have "Cache_get thread alloc entry c = Inr (?l, c2)"
    using rd [of False False] ll bi
    by (simp add: Cache_get_def CacheEntryLocker_create_def lookupAndSetStatus_def Let_def)
  with lk sg show ?thesis by auto
qed

lemma later_get_waits:
  assumes bi: "bi = getBucketCacheBucketIndex (getHashKey entry)"
    and look: "tryCacheLookupImpl (buckets c bi) (getHashKey entry) = Some a"
    and e: "segment (buckets c bi) a = Some e"
    and st: "status e = eEntryStatusPending"
    and other: "computeThreadMagic e \<noteq> thread"
  shows "\<exists>l. Cache_get thread alloc entry c = Inr (l, c)
           \<and> status_locker l = eCacheEntryStatusComputationPending"
proof -
  let ?l = "\<lparr>processLocalEntry = entry, hash_locker = getHashKey entry, bucket = None,
             status_locker = eCacheEntryStatusMustCompute\<rparr>"
  have "lookupAndSetStatus thread alloc 0 0 ?l c
        = Inr (?l\<lparr>bucket := Some bi, status_locker := eCacheEntryStatusComputationPending\<rparr>, c)"
    by (rule poll_pending [where a = a and e = e]) (use assms in simp_all)
  then show ?thesis by (simp add: Cache_get_def CacheEntryLocker_create_def)
qed

lemma later_gets_wait:
  assumes bi: "bi = getBucketCacheBucketIndex (getHashKey entry)"
    and look: "tryCacheLookupImpl (buckets c bi) (getHashKey entry) = Some a"
    and e: "segment (buckets c bi) a = Some e"
    and st: "status e = eEntryStatusPending"
    and other: "computeThreadMagic e \<notin> set threads"
  shows "getsInTurn threads alloc entry c
         = Inr (replicate (length threads) eCacheEntryStatusComputationPending, c)"
  using other
proof (induction threads)
  case Nil
  show ?case by simp
next
  case (Cons t ts)
  from Cons.prems have "computeThreadMagic e \<noteq> t" by auto
  from later_get_waits [OF bi look e st this, of alloc] obtain l where
    "Cache_get t alloc entry c = Inr (l, c)"
    "status_locker l = eCacheEntryStatusComputationPending" by auto
  moreover from Cons have "getsInTurn ts alloc entry c
         = Inr (replicate (length ts) eCacheEntryStatusComputationPending, c)" by simp
  ultimately show ?case by simp
qed

lemma gets_in_turn:
  assumes bi: "bi = getBucketCacheBucketIndex (getHashKey entry)"
    and ok: "bucketState (buckets c bi) = eBucketStateOk"
    and look: "tryCacheLookupImpl (buckets c bi) (getHashKey entry) = None"
    and al: "alloc (tocFileSize (buckets c bi)) = Some p"
    and other: "thread \<notin> set threads"
  shows "\<exists>c1 e. getsInTurn (thread # threads) alloc entry c
                 = Inr (eCacheEntryStatusMustCompute
                          # replicate (length threads) eCacheEntryStatusComputationPending, c1)
           \<and> tryCacheLookupImpl (buckets c1 bi) (getHashKey entry) = Some p
           \<and> segment (buckets c1 bi) p = Some e
           \<and> status e = eEntryStatusPending \<and> computeThreadMagic e = thread"
proof -
  from first_get_reserves [where alloc = alloc and thread = thread, OF bi ok look al]
  obtain l c1 e where
    g: "Cache_get thread alloc entry c = Inr (l, c1)"
    and s: "status_locker l = eCacheEntryStatusMustCompute"
    and lk: "tryCacheLookupImpl (buckets c1 bi) (getHashKey entry) = Some p"
    and sg: "segment (buckets c1 bi) p = Some e"
    and st: "status e = eEntryStatusPending" and m: "computeThreadMagic e = thread"
    by blast
  from other m have "computeThreadMagic e \<notin> set threads" by simp
  from later_gets_wait [OF bi lk sg st this, of alloc]
  have "getsInTurn threads alloc entry c1
        = Inr (replicate (length threads) eCacheEntryStatusComputationPending, c1)" .
  with g s have "getsInTurn (thread # threads) alloc entry c
                 = Inr (eCacheEntryStatusMustCompute
                          # replicate (length threads) eCacheEntryStatusComputationPending, c1)"
    by simp
  with lk sg st m show ?thesis by blast
qed

lemma waitingLocker_fields:
  "bucket waitingLocker = Some 5" "hash_locker waitingLocker = 0x105"
  "processLocalEntry waitingLocker = payload 0x105 100"
  by (simp_all add: waitingLocker_def reservedLocker_def)

lemma reservedCache_fields:
  "tryCacheLookupImpl (buckets reservedCache 5) 0x105 = Some 0"
  "segment (buckets reservedCache 5) 0 = Some reservedEntry"
  "status reservedEntry = eEntryStatusPending"
  "computeThreadMagic reservedEntry = 1"
  "persistent reservedCache"
  by (simp_all add: reservedCache_def reservedEntry_def cache0_def tryCacheLookupImpl_def
        emptyBucket_def newEntryHeader_def)

lemma bucket_of_0x105: "getBucketCacheBucketIndex 0x105 = 5"
  by (simp add: getBucketCacheBucketIndex_low_byte)

text \<open>
  C9, as amended. The calls of the threads are taken one after the other, each under
  the locks of the bucket; a poll of \<open>waitForPendingEntry\<close> is a call of
  \<open>lookupAndSetStatus\<close> with the time spent waiting so far.
  \<^item> When the threads of a list call \<open>Cache::get\<close> in turn for a key that has no entry,
    in a bucket in the state \<open>eBucketStateOk\<close> with room for a header, the first caller
    gets \<open>MustCompute\<close> and every later caller, being another thread, gets
    \<open>ComputationPending\<close>; the entry is pending and names the first caller.
  \<^item> While the entry is pending, a poll by a thread that the entry does not name, with
    no timeout or before its timeout, gets \<open>ComputationPending\<close> and changes nothing.
  \<^item> Once the computing caller has inserted the entry, its locker is \<open>Cached\<close>, and a
    poll by a waiter gets \<open>Cached\<close> and changes nothing (in the persistent cache, when
    the payload of the waiter deserializes and gives back the hash).
  \<^item> While the entry is pending, a poll by a waiter whose timeout is not 0 and has
    expired gets \<open>MustCompute\<close>, and the entry stays pending in the map: each waiter
    takes the entry over when its own timeout expires.
\<close>

theorem C9_one_computes_others_wait:
  "(bi = getBucketCacheBucketIndex (getHashKey entry)
      \<and> bucketState (buckets c bi) = eBucketStateOk
      \<and> tryCacheLookupImpl (buckets c bi) (getHashKey entry) = None
      \<and> alloc (tocFileSize (buckets c bi)) = Some p
      \<and> thread \<notin> set threads
    \<longrightarrow> (\<exists>c1 e. getsInTurn (thread # threads) alloc entry c
                    = Inr (eCacheEntryStatusMustCompute
                             # replicate (length threads) eCacheEntryStatusComputationPending, c1)
              \<and> tryCacheLookupImpl (buckets c1 bi) (getHashKey entry) = Some p
              \<and> segment (buckets c1 bi) p = Some e
              \<and> status e = eEntryStatusPending \<and> computeThreadMagic e = thread))
   \<and> ((bucket w = None \<or> bucket w = Some bw)
      \<and> bw = getBucketCacheBucketIndex (hash_locker w)
      \<and> tryCacheLookupImpl (buckets cw bw) (hash_locker w) = Some a
      \<and> segment (buckets cw bw) a = Some ew
      \<and> status ew = eEntryStatusPending
      \<and> computeThreadMagic ew \<noteq> waiter
      \<and> (timeout = 0 \<or> timeSpent < timeout)
    \<longrightarrow> lookupAndSetStatus waiter allocw timeSpent timeout w cw
          = Inr (w\<lparr>bucket := Some bw,
                  status_locker := eCacheEntryStatusComputationPending\<rparr>, cw))
   \<and> ((bucket w = None \<or> bucket w = Some bw)
      \<and> bw = getBucketCacheBucketIndex (hash_locker w)
      \<and> tryCacheLookupImpl (buckets cw bw) (hash_locker w) = Some a
      \<and> segment (buckets cw bw) a = Some ew
      \<and> status ew = eEntryStatusPending
      \<and> computeThreadMagic ew \<noteq> 0
      \<and> bucket l = Some bw \<and> hash_locker l = hash_locker w
      \<and> insertInternal propAlloc l cw = Inr (eInsertRetCodeCreated, l', c')
      \<and> (persistent cw \<longrightarrow>
            (\<forall>n props. fromMemorySegment (processLocalEntry w) n False props
                          = Returns eFromMemorySegmentRetCodeOk
                        \<and> getHashKeyForced (processLocalEntry w) props = hash_locker w))
    \<longrightarrow> status_locker l' = eCacheEntryStatusCached
        \<and> (\<exists>w'. lookupAndSetStatus waiter allocw timeSpent timeout w c' = Inr (w', c')
                \<and> status_locker w' = eCacheEntryStatusCached))
   \<and> ((bucket w = None \<or> bucket w = Some bw)
      \<and> bw = getBucketCacheBucketIndex (hash_locker w)
      \<and> tryCacheLookupImpl (buckets cw bw) (hash_locker w) = Some a
      \<and> segment (buckets cw bw) a = Some ew
      \<and> status ew = eEntryStatusPending
      \<and> timeout \<noteq> 0 \<and> timeout \<le> timeSpent
    \<longrightarrow> (\<exists>w' c2. lookupAndSetStatus waiter allocw timeSpent timeout w cw = Inr (w', c2)
                \<and> status_locker w' = eCacheEntryStatusMustCompute
                \<and> tryCacheLookupImpl (buckets c2 bw) (hash_locker w) = Some a
                \<and> map_option status (segment (buckets c2 bw) a) = Some eEntryStatusPending))"
proof (intro conjI impI)
  assume h: "bi = getBucketCacheBucketIndex (getHashKey entry)
      \<and> bucketState (buckets c bi) = eBucketStateOk
      \<and> tryCacheLookupImpl (buckets c bi) (getHashKey entry) = None
      \<and> alloc (tocFileSize (buckets c bi)) = Some p
      \<and> thread \<notin> set threads"
  then have h1: "bi = getBucketCacheBucketIndex (getHashKey entry)"
    and h2: "bucketState (buckets c bi) = eBucketStateOk"
    and h3: "tryCacheLookupImpl (buckets c bi) (getHashKey entry) = None"
    and h4: "alloc (tocFileSize (buckets c bi)) = Some p"
    and h5: "thread \<notin> set threads"
    by blast+
  show "\<exists>c1 e. getsInTurn (thread # threads) alloc entry c
                    = Inr (eCacheEntryStatusMustCompute
                             # replicate (length threads) eCacheEntryStatusComputationPending, c1)
              \<and> tryCacheLookupImpl (buckets c1 bi) (getHashKey entry) = Some p
              \<and> segment (buckets c1 bi) p = Some e
              \<and> status e = eEntryStatusPending \<and> computeThreadMagic e = thread"
    by (rule gets_in_turn [where alloc = alloc, OF h1 h2 h3 h4 h5])
next
  assume h: "(bucket w = None \<or> bucket w = Some bw)
      \<and> bw = getBucketCacheBucketIndex (hash_locker w)
      \<and> tryCacheLookupImpl (buckets cw bw) (hash_locker w) = Some a
      \<and> segment (buckets cw bw) a = Some ew
      \<and> status ew = eEntryStatusPending
      \<and> computeThreadMagic ew \<noteq> waiter
      \<and> (timeout = 0 \<or> timeSpent < timeout)"
  show "lookupAndSetStatus waiter allocw timeSpent timeout w cw
          = Inr (w\<lparr>bucket := Some bw,
                  status_locker := eCacheEntryStatusComputationPending\<rparr>, cw)"
    by (rule poll_pending [where a = a and e = ew]) (use h in blast)+
next
  assume h: "(bucket w = None \<or> bucket w = Some bw)
      \<and> bw = getBucketCacheBucketIndex (hash_locker w)
      \<and> tryCacheLookupImpl (buckets cw bw) (hash_locker w) = Some a
      \<and> segment (buckets cw bw) a = Some ew
      \<and> status ew = eEntryStatusPending
      \<and> timeout \<noteq> 0 \<and> timeout \<le> timeSpent"
  have "lookupAndSetStatus waiter allocw timeSpent timeout w cw
        = Inr (w\<lparr>bucket := Some bw, status_locker := eCacheEntryStatusMustCompute\<rparr>, cw)"
    by (rule poll_takeover [where a = a and e = ew]) (use h in blast)+
  with h show "\<exists>w' c2. lookupAndSetStatus waiter allocw timeSpent timeout w cw = Inr (w', c2)
                \<and> status_locker w' = eCacheEntryStatusMustCompute
                \<and> tryCacheLookupImpl (buckets c2 bw) (hash_locker w) = Some a
                \<and> map_option status (segment (buckets c2 bw) a) = Some eEntryStatusPending"
    by auto
next
  assume h: "(bucket w = None \<or> bucket w = Some bw)
      \<and> bw = getBucketCacheBucketIndex (hash_locker w)
      \<and> tryCacheLookupImpl (buckets cw bw) (hash_locker w) = Some a
      \<and> segment (buckets cw bw) a = Some ew
      \<and> status ew = eEntryStatusPending
      \<and> computeThreadMagic ew \<noteq> 0
      \<and> bucket l = Some bw \<and> hash_locker l = hash_locker w
      \<and> insertInternal propAlloc l cw = Inr (eInsertRetCodeCreated, l', c')
      \<and> (persistent cw \<longrightarrow>
            (\<forall>n props. fromMemorySegment (processLocalEntry w) n False props
                          = Returns eFromMemorySegmentRetCodeOk
                        \<and> getHashKeyForced (processLocalEntry w) props = hash_locker w))"
  then have bl: "bucket w = None \<or> bucket w = Some bw"
    and bw: "bw = getBucketCacheBucketIndex (hash_locker w)"
    and look: "tryCacheLookupImpl (buckets cw bw) (hash_locker l) = Some a"
    and e: "segment (buckets cw bw) a = Some ew"
    and m: "computeThreadMagic ew \<noteq> 0"
    and b: "bucket l = Some bw" and hl: "hash_locker l = hash_locker w"
    and ins: "insertInternal propAlloc l cw = Inr (eInsertRetCodeCreated, l', c')"
    and pl: "persistent cw \<Longrightarrow> fromMemorySegment (processLocalEntry w) n False props
                          = Returns eFromMemorySegmentRetCodeOk"
            "persistent cw \<Longrightarrow> getHashKeyForced (processLocalEntry w) props = hash_locker w"
    for n props
    by auto
  from insertInternal_ready [OF b look e m ins] obtain e' where
    e': "segment (buckets c' bw) a = Some e'" and st: "status e' = eEntryStatusReady"
    and bk: "lruListBack (buckets c' bw) = Some a"
    and em: "entriesMap (buckets c' bw) = entriesMap (buckets cw bw)"
    and p: "persistent c' = persistent cw"
    and l': "status_locker l' = eCacheEntryStatusCached"
    by blast
  have look': "tryCacheLookupImpl (buckets c' bw) (hash_locker w) = Some a"
    using look hl em by (simp add: tryCacheLookupImpl_def)
  have des: "deserializeEntry (tocFileSize (buckets c' bw)) e' (processLocalEntry w)
               (hash_locker w) False = eShmEntryReadRetCodeOk" if "persistent c'"
  proof -
    from that p have pc: "persistent cw" by simp
    from insertInternal_hash_property [OF pc b look e m ins] e' hl
    have "properties e' kNatronIPCPropertyHash = Some (hash_locker w)" by auto
    then show ?thesis using pl [OF pc] by (rule deserializeEntry_Ok)
  qed
  from l' show "status_locker l' = eCacheEntryStatusCached" .
  from get_cached [OF bl bw look' e' st bk des, of waiter allocw timeSpent timeout]
  show "\<exists>w'. lookupAndSetStatus waiter allocw timeSpent timeout w c' = Inr (w', c')
              \<and> status_locker w' = eCacheEntryStatusCached" .
qed

theorem C9_one_computes_others_wait_witness:
  "(\<exists>c1 e. getsInTurn (1 # [2, 3]) (\<lambda>n. Some 0) (payload 0x105 100) (cache0 0)
              = Inr (eCacheEntryStatusMustCompute
                       # replicate (length [2 :: U64, 3]) eCacheEntryStatusComputationPending, c1)
            \<and> tryCacheLookupImpl (buckets c1 5) (getHashKey (payload 0x105 100)) = Some 0
            \<and> segment (buckets c1 5) 0 = Some e
            \<and> status e = eEntryStatusPending \<and> computeThreadMagic e = 1)
   \<and> tryCacheLookupImpl (buckets reservedCache 5) (hash_locker waitingLocker) = Some 0
   \<and> segment (buckets reservedCache 5) 0 = Some reservedEntry
   \<and> status reservedEntry = eEntryStatusPending
   \<and> lookupAndSetStatus 2 (\<lambda>n. None) 0 10 waitingLocker reservedCache
        = Inr (waitingLocker\<lparr>bucket := Some 5,
                 status_locker := eCacheEntryStatusComputationPending\<rparr>, reservedCache)
   \<and> (\<exists>l' c'. insertInternal (\<lambda>n. True) reservedLocker reservedCache
                  = Inr (eInsertRetCodeCreated, l', c')
               \<and> status_locker l' = eCacheEntryStatusCached
               \<and> (\<exists>w'. lookupAndSetStatus 2 (\<lambda>n. None) 0 10 waitingLocker c' = Inr (w', c')
                       \<and> status_locker w' = eCacheEntryStatusCached))
   \<and> (\<exists>w' c2. lookupAndSetStatus 2 (\<lambda>n. None) 20 10 waitingLocker reservedCache = Inr (w', c2)
               \<and> status_locker w' = eCacheEntryStatusMustCompute
               \<and> tryCacheLookupImpl (buckets c2 5) (hash_locker waitingLocker) = Some 0
               \<and> map_option status (segment (buckets c2 5) 0) = Some eEntryStatusPending)"
proof -
  note t = C9_one_computes_others_wait
  have h0: "5 = getBucketCacheBucketIndex (getHashKey (payload 0x105 100))"
    "bucketState (buckets (cache0 0) 5) = eBucketStateOk"
    "tryCacheLookupImpl (buckets (cache0 0) 5) (getHashKey (payload 0x105 100)) = None"
    "(\<lambda>n. Some 0) (tocFileSize (buckets (cache0 0) 5)) = Some (0 :: addr)"
    "(1 :: U64) \<notin> set [2, 3]"
    by (simp_all add: payload_def bucket_of_0x105 cache0_def emptyBucket_def
          tryCacheLookupImpl_def)
  from t [where bi = 5 and entry = "payload 0x105 100" and c = "cache0 0"
            and alloc = "\<lambda>n. Some 0" and p = 0 and thread = 1 and threads = "[2, 3]",
          THEN conjunct1] h0
  have a: "\<exists>c1 e. getsInTurn (1 # [2, 3]) (\<lambda>n. Some 0) (payload 0x105 100) (cache0 0)
              = Inr (eCacheEntryStatusMustCompute
                       # replicate (length [2 :: U64, 3]) eCacheEntryStatusComputationPending, c1)
            \<and> tryCacheLookupImpl (buckets c1 5) (getHashKey (payload 0x105 100)) = Some 0
            \<and> segment (buckets c1 5) 0 = Some e
            \<and> status e = eEntryStatusPending \<and> computeThreadMagic e = 1"
    by blast
  have h1: "bucket waitingLocker = None \<or> bucket waitingLocker = Some 5"
    "5 = getBucketCacheBucketIndex (hash_locker waitingLocker)"
    "tryCacheLookupImpl (buckets reservedCache 5) (hash_locker waitingLocker) = Some 0"
    "segment (buckets reservedCache 5) 0 = Some reservedEntry"
    "status reservedEntry = eEntryStatusPending"
    by (simp_all add: waitingLocker_fields reservedCache_fields bucket_of_0x105)
  have h2: "computeThreadMagic reservedEntry \<noteq> 2" "(10 :: nat) = 0 \<or> (0 :: nat) < 10"
    by (simp_all add: reservedCache_fields)
  from t [where w = waitingLocker and bw = 5 and cw = reservedCache and a = 0
            and ew = reservedEntry and waiter = 2 and timeout = 10 and timeSpent = 0
            and allocw = "\<lambda>n. None",
          THEN conjunct2, THEN conjunct1] h1 h2
  have b: "lookupAndSetStatus 2 (\<lambda>n. None) 0 10 waitingLocker reservedCache
        = Inr (waitingLocker\<lparr>bucket := Some 5,
                 status_locker := eCacheEntryStatusComputationPending\<rparr>, reservedCache)"
    by blast
  from reservedCache_insertInternal obtain l' c' where
    ins: "insertInternal (\<lambda>n. True) reservedLocker reservedCache
            = Inr (eInsertRetCodeCreated, l', c')" by blast
  have h3: "computeThreadMagic reservedEntry \<noteq> 0" "bucket reservedLocker = Some 5"
    "hash_locker reservedLocker = hash_locker waitingLocker"
    "persistent reservedCache \<longrightarrow>
       (\<forall>n props. fromMemorySegment (processLocalEntry waitingLocker) n False props
                     = Returns eFromMemorySegmentRetCodeOk
                   \<and> getHashKeyForced (processLocalEntry waitingLocker) props
                     = hash_locker waitingLocker)"
    by (simp_all add: reservedCache_fields waitingLocker_fields reservedLocker_def payload_def)
  from t [where w = waitingLocker and bw = 5 and cw = reservedCache and a = 0
            and ew = reservedEntry and waiter = 2 and timeout = 10 and timeSpent = 0
            and allocw = "\<lambda>n. None" and l = reservedLocker and l' = l' and c' = c'
            and propAlloc = "\<lambda>n. True",
          THEN conjunct2, THEN conjunct2, THEN conjunct1] h1 h3 ins
  have c: "status_locker l' = eCacheEntryStatusCached"
    "\<exists>w'. lookupAndSetStatus 2 (\<lambda>n. None) 0 10 waitingLocker c' = Inr (w', c')
           \<and> status_locker w' = eCacheEntryStatusCached"
    by blast+
  have h4: "(10 :: nat) \<noteq> 0" "(10 :: nat) \<le> 20" by simp_all
  from t [where w = waitingLocker and bw = 5 and cw = reservedCache and a = 0
            and ew = reservedEntry and waiter = 2 and timeout = 10 and timeSpent = 20
            and allocw = "\<lambda>n. None",
          THEN conjunct2, THEN conjunct2, THEN conjunct2] h1 h4
  have d: "\<exists>w' c2. lookupAndSetStatus 2 (\<lambda>n. None) 20 10 waitingLocker reservedCache
                    = Inr (w', c2)
               \<and> status_locker w' = eCacheEntryStatusMustCompute
               \<and> tryCacheLookupImpl (buckets c2 5) (hash_locker waitingLocker) = Some 0
               \<and> map_option status (segment (buckets c2 5) 0) = Some eEntryStatusPending"
    by blast
  from ins c have c': "\<exists>l' c'. insertInternal (\<lambda>n. True) reservedLocker reservedCache
                  = Inr (eInsertRetCodeCreated, l', c')
               \<and> status_locker l' = eCacheEntryStatusCached
               \<and> (\<exists>w'. lookupAndSetStatus 2 (\<lambda>n. None) 0 10 waitingLocker c' = Inr (w', c')
                       \<and> status_locker w' = eCacheEntryStatusCached)"
    by blast
  show ?thesis
    using a h1(3) h1(4) h1(5) b c' d by (intro conjI)
qed

text \<open>
  The claim as stated says that exactly one other caller takes over. Thread 1 reserves
  the entry \<open>0x105\<close>, the threads 2 and 3 find it pending; with a timeout of 10 ms, the
  poll of thread 2 after 20 ms takes the entry over, and so does the poll of thread 3
  that follows: both lockers are in the status \<open>MustCompute\<close>.
\<close>

theorem C9_two_waiters_take_over_counterexample:
  "getsInTurn [1, 2, 3] (\<lambda>n. Some 0) (payload 0x105 100) (cache0 0)
     = Inr ([eCacheEntryStatusMustCompute, eCacheEntryStatusComputationPending,
             eCacheEntryStatusComputationPending], reservedCache)
   \<and> Cache_get 2 (\<lambda>n. Some 0) (payload 0x105 100) reservedCache
       = Inr (waitingLocker, reservedCache)
   \<and> Cache_get 3 (\<lambda>n. Some 0) (payload 0x105 100) reservedCache
       = Inr (waitingLocker, reservedCache)
   \<and> (case lookupAndSetStatus 2 (\<lambda>n. Some 1) 20 10 waitingLocker reservedCache of
         Inl err \<Rightarrow> False
       | Inr (l2, c2) \<Rightarrow>
           status_locker l2 = eCacheEntryStatusMustCompute
           \<and> (case lookupAndSetStatus 3 (\<lambda>n. Some 1) 20 10 waitingLocker c2 of
                 Inl err \<Rightarrow> False
               | Inr (l3, c3) \<Rightarrow> status_locker l3 = eCacheEntryStatusMustCompute))"
proof -
  have g: "Cache_get t (\<lambda>n. Some 0) (payload 0x105 100) reservedCache
           = Inr (waitingLocker, reservedCache)" if "t \<noteq> 1" for t
    using that
    by (simp add: waitingLocker_def reservedLocker_def reservedCache_def reservedEntry_def
          payload_def getBucketCacheBucketIndex_low_byte model_defs Let_def)
  have "getsInTurn [1, 2, 3] (\<lambda>n. Some 0) (payload 0x105 100) (cache0 0)
     = Inr ([eCacheEntryStatusMustCompute, eCacheEntryStatusComputationPending,
             eCacheEntryStatusComputationPending], reservedCache)"
    by (simp add: reserved_reachable g reservedLocker_def waitingLocker_def)
  moreover have "lookupAndSetStatus t (\<lambda>n. Some 1) 20 10 waitingLocker reservedCache
        = Inr (waitingLocker\<lparr>bucket := Some 5, status_locker := eCacheEntryStatusMustCompute\<rparr>,
               reservedCache)" for t
    by (rule poll_takeover [where a = 0 and e = reservedEntry])
       (simp_all add: waitingLocker_fields reservedCache_fields bucket_of_0x105)
  ultimately show ?thesis by (simp add: g)
qed

section \<open>C10: a maximum size of zero means no limit\<close>

text \<open>
  C10. If the configured maximum size is 0, \<open>evictLRUEntries\<close> returns at once and the
  cache is unchanged, whatever the number of bytes to free: no entry is evicted.
\<close>

theorem C10_zero_maximum_evicts_nothing:
  "maximumSize c = 0 \<Longrightarrow> evictLRUEntries nBytesToFree c = Inr c"
  by (simp add: evictLRUEntries_def)

theorem C10_zero_maximum_evicts_nothing_witness:
  "maximumSize cacheWithOneEntry = 0
   \<and> getCurrentSize cacheWithOneEntry = 100
   \<and> evictLRUEntries 50 cacheWithOneEntry = Inr cacheWithOneEntry"
proof -
  have m: "maximumSize cacheWithOneEntry = 0"
    by (simp add: cacheWithOneEntry_def cache0_def)
  have "(\<lambda>i. size_bucket (buckets cacheWithOneEntry i)) = (\<lambda>i. if i = 5 then 100 else 0)"
    by (auto simp: cacheWithOneEntry_def cache0_def emptyBucket_def)
  then have s: "getCurrentSize cacheWithOneEntry = 100"
    by (simp add: getCurrentSize_def NATRON_CACHE_BUCKETS_COUNT_def sum_list_upt_split [of 5])
  show ?thesis using m s C10_zero_maximum_evicts_nothing [OF m, of 50] by simp
qed

end
